theory Spec2Isabelle
  imports Main "HOL-Library.Word"
begin

section \<open>Data model\<close>

text \<open>
  Modelled from the spec: \<open>coalescing_allocator::size_type\<close> is declared in
  \<open>coalescing_allocator.hpp\<close>, which is not part of the sources at hand. The spec
  gives it as an unsigned 32-bit integer, and \<open>allocate\<close> returns
  \<open>std::numeric_limits<uint32_t>::max()\<close> through it and narrows the vector length
  to \<open>uint32_t\<close>. Arithmetic on it wraps around modulo \<open>2 ^ 32\<close>.
\<close>

type_synonym size_type = "32 word"

text \<open>
  The allocator object holds two vectors of \<open>size_type\<close>, the members
  \<open>offsets_\<close> and \<open>sizes_\<close> (declared in the same header; the trailing underscore
  of their names is dropped here). Nothing in the code ties their lengths together, so the
  model keeps two lists.
\<close>

record coalescing_allocator =
  offsets :: "size_type list"
  sizes :: "size_type list"

text \<open>
  What the C++ leaves undefined is a value of the model: a failed \<open>assert\<close>, and a
  read or write of a vector element that does not exist.
\<close>

datatype fault = AssertionFailed | OutOfBounds

definition uint32_max :: size_type where
  "uint32_max = 4294967295"

text \<open>\<open>v.erase(v.begin() + i)\<close> and \<open>v.insert(v.begin() + i, x)\<close>.\<close>

definition erase :: "'a list \<Rightarrow> nat \<Rightarrow> 'a list" where
  "erase xs i = take i xs @ drop (Suc i) xs"

definition insert_at :: "'a list \<Rightarrow> nat \<Rightarrow> 'a \<Rightarrow> 'a list" where
  "insert_at xs i x = take i xs @ x # drop i xs"

text \<open>
  The accesses of \<open>deallocate\<close> to its vectors, each with its own bounds check: reading
  and writing element \<open>i\<close> (\<open>front()\<close> is element \<open>0\<close>, \<open>back()\<close> is element
  \<open>size() - 1\<close>) and erasing it need \<open>i < size()\<close>, inserting before position \<open>i\<close>
  needs \<open>i \<le> size()\<close>. An access outside these bounds is the fault \<open>OutOfBounds\<close>,
  and \<open>and_then\<close> stops at the first fault.
\<close>

definition vec_read :: "'a list \<Rightarrow> nat \<Rightarrow> fault + 'a" where
  "vec_read xs i = (if i < length xs then Inr (xs ! i) else Inl OutOfBounds)"

definition vec_write :: "'a list \<Rightarrow> nat \<Rightarrow> 'a \<Rightarrow> fault + 'a list" where
  "vec_write xs i v = (if i < length xs then Inr (xs[i := v]) else Inl OutOfBounds)"

definition vec_erase :: "'a list \<Rightarrow> nat \<Rightarrow> fault + 'a list" where
  "vec_erase xs i = (if i < length xs then Inr (erase xs i) else Inl OutOfBounds)"

definition vec_insert :: "'a list \<Rightarrow> nat \<Rightarrow> 'a \<Rightarrow> fault + 'a list" where
  "vec_insert xs i v = (if i \<le> length xs then Inr (insert_at xs i v) else Inl OutOfBounds)"

definition and_then :: "fault + 'a \<Rightarrow> ('a \<Rightarrow> fault + 'b) \<Rightarrow> fault + 'b" where
  "and_then m f = (case m of Inl e \<Rightarrow> Inl e | Inr x \<Rightarrow> f x)"

section \<open>The search routine\<close>

text \<open>
  A pointer into an array is the index of the element it points to; \<open>xs\<close> is the
  array. The window size is a \<open>size_t\<close>; it never exceeds the length of the array,
  so \<open>size + 1\<close> does not wrap and a natural number stands for it.

  \<open>ACL_BINARY_SEARCH_STEP2\<close>: the state is the pair \<open>(it, size)\<close>.
\<close>

definition binary_search_step2 ::
  "'a::linorder list \<Rightarrow> 'a \<Rightarrow> nat \<times> nat \<Rightarrow> fault + nat \<times> nat" where
  "binary_search_step2 xs key st =
     (case st of (it, sz) \<Rightarrow>
        (let middle = it + sz div 2 in
         if middle < length xs
         then Inr (if xs ! middle < key then middle else it, (sz + 1) div 2)
         else Inl OutOfBounds))"

text \<open>The \<open>do { STEP; STEP; } while (size > 2)\<close> loop of the direct \<open>mini2\<close>.\<close>

function mini2_loop ::
  "'a::linorder list \<Rightarrow> 'a \<Rightarrow> nat \<times> nat \<Rightarrow> fault + nat \<times> nat" where
  "mini2_loop xs key st =
     (case binary_search_step2 xs key st of
        Inl e \<Rightarrow> Inl e
      | Inr st1 \<Rightarrow>
          (case binary_search_step2 xs key st1 of
             Inl e \<Rightarrow> Inl e
           | Inr st2 \<Rightarrow> if 2 < snd st2 then mini2_loop xs key st2 else Inr st2))"
  by pat_completeness auto
termination
  by (relation "measure (\<lambda>(xs, key, st). snd st)")
     (auto simp: binary_search_step2_def Let_def split: if_splits prod.splits)

text \<open>
  \<open>it += size > k && (*it < key)\<close>: the element is read only when the left
  operand of \<open>&&\<close> holds.
\<close>

definition mini2_tail ::
  "'a::linorder list \<Rightarrow> 'a \<Rightarrow> nat \<Rightarrow> nat \<times> nat \<Rightarrow> fault + nat \<times> nat" where
  "mini2_tail xs key k st =
     (case st of (it, sz) \<Rightarrow>
        if k < sz
        then (if it < length xs
              then Inr (if xs ! it < key then it + 1 else it, sz)
              else Inl OutOfBounds)
        else Inr (it, sz))"

text \<open>The direct form, called with \<open>it\<close> at the first element of \<open>xs\<close>.\<close>

definition mini2 :: "'a::linorder list \<Rightarrow> nat \<Rightarrow> 'a \<Rightarrow> fault + nat" where
  "mini2 xs sz key =
     (case mini2_loop xs key (0, sz) of
        Inl e \<Rightarrow> Inl e
      | Inr st \<Rightarrow>
          (case mini2_tail xs key 1 st of
             Inl e \<Rightarrow> Inl e
           | Inr st1 \<Rightarrow>
               (case mini2_tail xs key 0 st1 of
                  Inl e \<Rightarrow> Inl e
                | Inr st2 \<Rightarrow> Inr (fst st2))))"

text \<open>
  \<open>ACL_BINARY_SEARCH_STEP_INDIRECT\<close> and the indirect \<open>mini2\<close>: \<open>it\<close> walks an
  index array \<open>ix\<close>, and the comparison reads \<open>data[*it]\<close>. Both reads are checked.
\<close>

definition deref :: "nat list \<Rightarrow> 'a list \<Rightarrow> nat \<Rightarrow> fault + 'a" where
  "deref ix data p =
     (if p < length ix \<and> ix ! p < length data then Inr (data ! (ix ! p))
      else Inl OutOfBounds)"

definition binary_search_step_indirect ::
  "nat list \<Rightarrow> 'a::linorder list \<Rightarrow> 'a \<Rightarrow> nat \<times> nat \<Rightarrow> fault + nat \<times> nat" where
  "binary_search_step_indirect ix data key st =
     (case st of (it, sz) \<Rightarrow>
        (let middle = it + sz div 2 in
         case deref ix data middle of
           Inl e \<Rightarrow> Inl e
         | Inr v \<Rightarrow> Inr (if v < key then middle else it, (sz + 1) div 2)))"

function mini2_indirect_loop ::
  "nat list \<Rightarrow> 'a::linorder list \<Rightarrow> 'a \<Rightarrow> nat \<times> nat \<Rightarrow> fault + nat \<times> nat" where
  "mini2_indirect_loop ix data key st =
     (case binary_search_step_indirect ix data key st of
        Inl e \<Rightarrow> Inl e
      | Inr st1 \<Rightarrow>
          (case binary_search_step_indirect ix data key st1 of
             Inl e \<Rightarrow> Inl e
           | Inr st2 \<Rightarrow>
               if 2 < snd st2 then mini2_indirect_loop ix data key st2 else Inr st2))"
  by pat_completeness auto
termination
  by (relation "measure (\<lambda>(ix, data, key, st). snd st)")
     (auto simp: binary_search_step_indirect_def Let_def split: sum.splits prod.splits)

definition mini2_indirect_tail ::
  "nat list \<Rightarrow> 'a::linorder list \<Rightarrow> 'a \<Rightarrow> nat \<Rightarrow> nat \<times> nat \<Rightarrow> fault + nat \<times> nat" where
  "mini2_indirect_tail ix data key k st =
     (case st of (it, sz) \<Rightarrow>
        if k < sz
        then (case deref ix data it of
                Inl e \<Rightarrow> Inl e
              | Inr v \<Rightarrow> Inr (if v < key then it + 1 else it, sz))
        else Inr (it, sz))"

definition mini2_indirect ::
  "nat list \<Rightarrow> 'a::linorder list \<Rightarrow> nat \<Rightarrow> 'a \<Rightarrow> fault + nat" where
  "mini2_indirect ix data sz key =
     (case mini2_indirect_loop ix data key (0, sz) of
        Inl e \<Rightarrow> Inl e
      | Inr st \<Rightarrow>
          (case mini2_indirect_tail ix data key 1 st of
             Inl e \<Rightarrow> Inl e
           | Inr st1 \<Rightarrow>
               (case mini2_indirect_tail ix data key 0 st1 of
                  Inl e \<Rightarrow> Inl e
                | Inr st2 \<Rightarrow> Inr (fst st2))))"

section \<open>allocate\<close>

text \<open>
  The first-fit loop, at index \<open>i\<close> with bound \<open>stop\<close>. The index is a
  \<open>uint32_t\<close> below \<open>stop\<close>, so \<open>++i\<close> does not wrap.
\<close>

function allocate_loop ::
  "size_type \<Rightarrow> coalescing_allocator \<Rightarrow> nat \<Rightarrow> nat \<Rightarrow>
   fault + size_type \<times> coalescing_allocator" where
  "allocate_loop sz a i stop =
     (if i < stop then
        (if \<not> i < length (sizes a) then Inl OutOfBounds
         else if sz \<le> sizes a ! i then
           (if \<not> i < length (offsets a) then Inl OutOfBounds
            else
              (let ret = offsets a ! i;
                   sizes1 = (sizes a)[i := sizes a ! i - sz];
                   offsets1 = (offsets a)[i := offsets a ! i + sz]
               in if sizes1 ! i = 0
                  then Inr (ret, \<lparr>offsets = erase offsets1 i, sizes = erase sizes1 i\<rparr>)
                  else Inr (ret, \<lparr>offsets = offsets1, sizes = sizes1\<rparr>)))
         else allocate_loop sz a (i + 1) stop)
      else Inr (uint32_max, a))"
  by pat_completeness auto
termination
  by (relation "measure (\<lambda>(sz, a, i, stop). stop - i)") auto

text \<open>\<open>end = static_cast<uint32_t>(sizes_.size())\<close> keeps the low 32 bits of the length.\<close>

definition allocate ::
  "size_type \<Rightarrow> coalescing_allocator \<Rightarrow> fault + size_type \<times> coalescing_allocator" where
  "allocate sz a = allocate_loop sz a 0 (length (sizes a) mod 2 ^ 32)"

section \<open>deallocate\<close>

text \<open>
  The body of \<open>deallocate\<close> after the search (the \<open>if\<close> cascade on \<open>it\<close>), as a
  function of the position \<open>it\<close> the search returned. Every access to \<open>offsets_\<close>
  and to \<open>sizes_\<close> goes through a checked operation, in the order of the source;
  \<open>emplace_back\<close> has no bound to meet.
\<close>

definition deallocate_at ::
  "size_type \<Rightarrow> size_type \<Rightarrow> coalescing_allocator \<Rightarrow> nat \<Rightarrow> fault + coalescing_allocator" where
  "deallocate_at offset sz a it =
     (if it = 0 then
        and_then (vec_read (offsets a) 0) (\<lambda>front.
          if offset + sz = front then
            and_then (vec_write (offsets a) 0 offset) (\<lambda>offsets1.
            and_then (vec_read (sizes a) 0) (\<lambda>sfront.
            and_then (vec_write (sizes a) 0 (sfront + sz)) (\<lambda>sizes1.
              Inr \<lparr>offsets = offsets1, sizes = sizes1\<rparr>)))
          else
            and_then (vec_insert (offsets a) 0 offset) (\<lambda>offsets1.
            and_then (vec_insert (sizes a) 0 sz) (\<lambda>sizes1.
              Inr \<lparr>offsets = offsets1, sizes = sizes1\<rparr>)))
      else if it = length (offsets a) then
        and_then (vec_read (offsets a) (length (offsets a) - 1)) (\<lambda>back.
        and_then (vec_read (sizes a) (length (sizes a) - 1)) (\<lambda>sback.
          if back + sback = offset then
            and_then (vec_write (sizes a) (length (sizes a) - 1) (sback + sz)) (\<lambda>sizes1.
              Inr \<lparr>offsets = offsets a, sizes = sizes1\<rparr>)
          else Inr \<lparr>offsets = offsets a @ [offset], sizes = sizes a @ [sz]\<rparr>))
      else
        (let idx = it in
         and_then (vec_read (offsets a) (idx - 1)) (\<lambda>p.
         and_then (vec_read (sizes a) (idx - 1)) (\<lambda>pz.
           if p + pz = offset then
             and_then (vec_write (sizes a) (idx - 1) (pz + sz)) (\<lambda>sizes1.
             and_then (vec_read (offsets a) idx) (\<lambda>q.
             and_then (vec_read (offsets a) (idx - 1)) (\<lambda>p1.
             and_then (vec_read sizes1 (idx - 1)) (\<lambda>pz1.
               if q = p1 + pz1 then
                 and_then (vec_read sizes1 idx) (\<lambda>qz.
                 and_then (vec_write sizes1 (idx - 1) (pz1 + qz)) (\<lambda>sizes2.
                 and_then (vec_erase (offsets a) idx) (\<lambda>offsets3.
                 and_then (vec_erase sizes2 idx) (\<lambda>sizes3.
                   Inr \<lparr>offsets = offsets3, sizes = sizes3\<rparr>))))
               else Inr \<lparr>offsets = offsets a, sizes = sizes1\<rparr>))))
           else
             and_then (vec_read (offsets a) idx) (\<lambda>q.
               if q = offset + sz then
                 and_then (vec_write (offsets a) idx (q - sz)) (\<lambda>offsets1.
                 and_then (vec_read (sizes a) idx) (\<lambda>qz.
                 and_then (vec_write (sizes a) idx (qz + sz)) (\<lambda>sizes1.
                   Inr \<lparr>offsets = offsets1, sizes = sizes1\<rparr>)))
               else
                 and_then (vec_insert (offsets a) idx offset) (\<lambda>offsets1.
                 and_then (vec_insert (sizes a) idx sz) (\<lambda>sizes1.
                   Inr \<lparr>offsets = offsets1, sizes = sizes1\<rparr>)))))))"

text \<open>The assertion, the search on \<open>offsets_\<close>, then the cascade.\<close>

definition deallocate ::
  "size_type \<Rightarrow> size_type \<Rightarrow> coalescing_allocator \<Rightarrow> fault + coalescing_allocator" where
  "deallocate offset sz a =
     (if offsets a = [] then Inl AssertionFailed
      else
        (case mini2 (offsets a) (length (offsets a)) offset of
           Inl e \<Rightarrow> Inl e
         | Inr it \<Rightarrow> deallocate_at offset sz a it))"

section \<open>Notions of the specification\<close>

subsection \<open>Free blocks and the invariants of the free list\<close>

type_synonym block = "size_type \<times> size_type"

definition blocks :: "coalescing_allocator \<Rightarrow> block list" where
  "blocks a = zip (offsets a) (sizes a)"

definition of_blocks :: "block list \<Rightarrow> coalescing_allocator" where
  "of_blocks bs = \<lparr>offsets = map fst bs, sizes = map snd bs\<rparr>"

text \<open>The end of a block is a number, not a value of the size type: it does not wrap.\<close>

definition block_end :: "block \<Rightarrow> nat" where
  "block_end b = unat (fst b) + unat (snd b)"

definition parallel :: "coalescing_allocator \<Rightarrow> bool" where
  "parallel a = (length (offsets a) = length (sizes a))"

definition strictly_ascending :: "coalescing_allocator \<Rightarrow> bool" where
  "strictly_ascending a = successively (\<lambda>x y. x < y) (offsets a)"

definition non_overlapping :: "coalescing_allocator \<Rightarrow> bool" where
  "non_overlapping a = successively (\<lambda>b c. block_end b \<le> unat (fst c)) (blocks a)"

definition before :: "block \<Rightarrow> block \<Rightarrow> bool" where
  "before b c = (block_end b < unat (fst c))"

definition non_adjacent :: "coalescing_allocator \<Rightarrow> bool" where
  "non_adjacent a = successively before (blocks a)"

definition positive_sizes :: "coalescing_allocator \<Rightarrow> bool" where
  "positive_sizes a = list_all (\<lambda>z. 0 < z) (sizes a)"

text \<open>Invariants 1 to 4 of the free list, on two vectors of one length.\<close>

definition free_list_inv :: "coalescing_allocator \<Rightarrow> bool" where
  "free_list_inv a =
     (parallel a \<and> strictly_ascending a \<and> non_overlapping a \<and> non_adjacent a \<and>
      positive_sizes a)"

text \<open>
  A range lies in the managed space when it ends at or below the largest value of the
  size type, which \<open>allocate\<close> reserves as its failure result.
\<close>

definition addressable :: "block \<Rightarrow> bool" where
  "addressable b = (block_end b \<le> unat uint32_max)"

definition in_range :: "coalescing_allocator \<Rightarrow> bool" where
  "in_range a = list_all addressable (blocks a)"

text \<open>
  The precondition of \<open>deallocate\<close> on the freed range: it is not empty, it lies in the
  managed space, and no free block meets it.
\<close>

definition apart :: "block \<Rightarrow> block \<Rightarrow> bool" where
  "apart r b = (block_end b \<le> unat (fst r) \<or> block_end r \<le> unat (fst b))"

definition not_marked_free :: "size_type \<Rightarrow> size_type \<Rightarrow> coalescing_allocator \<Rightarrow> bool" where
  "not_marked_free offset sz a =
     (0 < sz \<and> addressable (offset, sz) \<and> list_all (apart (offset, sz)) (blocks a))"

subsection \<open>Lower bound and first fit\<close>

text \<open>The position of the first entry that is not less than the key; the length if none.\<close>

fun lower_bound :: "'a::linorder list \<Rightarrow> 'a \<Rightarrow> nat" where
  "lower_bound [] key = 0"
| "lower_bound (x # xs) key = (if x < key then Suc (lower_bound xs key) else 0)"

text \<open>The sequence an index array denotes over a data array.\<close>

definition through :: "nat list \<Rightarrow> 'a list \<Rightarrow> 'a list" where
  "through ix data = map (\<lambda>i. data ! i) ix"

text \<open>The position of the first size that is at least the request; the length if none.\<close>

fun first_fit :: "size_type list \<Rightarrow> size_type \<Rightarrow> nat" where
  "first_fit [] sz = 0"
| "first_fit (z # zs) sz = (if sz \<le> z then 0 else Suc (first_fit zs sz))"

text \<open>
  Carving a request from the start of block \<open>k\<close>: the offset advances, the size shrinks,
  and the block leaves the store when nothing remains of it.
\<close>

definition carve :: "coalescing_allocator \<Rightarrow> nat \<Rightarrow> size_type \<Rightarrow> coalescing_allocator" where
  "carve a k sz =
     (if sizes a ! k - sz = 0
      then \<lparr>offsets = erase (offsets a) k, sizes = erase (sizes a) k\<rparr>
      else \<lparr>offsets = (offsets a)[k := offsets a ! k + sz],
            sizes = (sizes a)[k := sizes a ! k - sz]\<rparr>)"

subsection \<open>The four cases of deallocate, on a list of blocks\<close>

text \<open>
  The specification's case analysis at an insertion point \<open>idx\<close>: at the front, past
  the last entry, or between a predecessor and a successor.
\<close>

definition coalesce_at :: "nat \<Rightarrow> size_type \<Rightarrow> size_type \<Rightarrow> block list \<Rightarrow> block list" where
  "coalesce_at idx offset sz bs =
     (if idx = 0 then
        (case bs of
           [] \<Rightarrow> [(offset, sz)]
         | (f, fz) # rest \<Rightarrow>
             if offset + sz = f then (offset, fz + sz) # rest else (offset, sz) # bs)
      else if idx = length bs then
        (case last bs of
           (l, lz) \<Rightarrow>
             if l + lz = offset then butlast bs @ [(l, lz + sz)] else bs @ [(offset, sz)])
      else
        (case (bs ! (idx - 1), bs ! idx) of
           ((p, pz), (q, qz)) \<Rightarrow>
             if p + pz = offset then
               (if p + (pz + sz) = q
                then take (idx - 1) bs @ (p, pz + sz + qz) # drop (idx + 1) bs
                else bs[idx - 1 := (p, pz + sz)])
             else if q = offset + sz then bs[idx := (q - sz, qz + sz)]
             else take idx bs @ (offset, sz) # drop idx bs))"

definition deallocate_spec :: "size_type \<Rightarrow> size_type \<Rightarrow> block list \<Rightarrow> block list" where
  "deallocate_spec offset sz bs = coalesce_at (lower_bound (map fst bs) offset) offset sz bs"

subsection \<open>Sequences of calls\<close>

text \<open>
  A caller that keeps the list of its live allocations: an allocation that did not return
  the sentinel is recorded with its offset and size, a deallocation removes its record.
\<close>

datatype call = Allocate size_type | Deallocate size_type size_type

type_synonym session = "coalescing_allocator \<times> block list"

fun call_step :: "call \<Rightarrow> session \<Rightarrow> fault + session" where
  "call_step (Allocate sz) (a, live) =
     (case allocate sz a of
        Inl e \<Rightarrow> Inl e
      | Inr (ret, a') \<Rightarrow> Inr (a', if ret = uint32_max then live else (ret, sz) # live))"
| "call_step (Deallocate offset sz) (a, live) =
     (case deallocate offset sz a of
        Inl e \<Rightarrow> Inl e
      | Inr a' \<Rightarrow> Inr (a', remove1 (offset, sz) live))"

fun run :: "call list \<Rightarrow> session \<Rightarrow> fault + session" where
  "run [] c = Inr c"
| "run (x # xs) c = (case call_step x c of Inl e \<Rightarrow> Inl e | Inr c' \<Rightarrow> run xs c')"

text \<open>
  A call is valid when it meets the preconditions: \<open>deallocate\<close> is given a live
  allocation and a non-empty free list.
\<close>

fun valid_call :: "call \<Rightarrow> session \<Rightarrow> bool" where
  "valid_call (Allocate sz) c = True"
| "valid_call (Deallocate offset sz) (a, live) = ((offset, sz) \<in> set live \<and> offsets a \<noteq> [])"

fun valid_calls :: "call list \<Rightarrow> session \<Rightarrow> bool" where
  "valid_calls [] c = True"
| "valid_calls (x # xs) c =
     (valid_call x c \<and> (case call_step x c of Inl e \<Rightarrow> False | Inr c' \<Rightarrow> valid_calls xs c'))"




definition live_total :: "block list \<Rightarrow> nat" where
  "live_total live = sum_list (map (\<lambda>b. unat (snd b)) live)"

subsection \<open>The invariants on a list of blocks\<close>

text \<open>
  Every block is not empty and lies in the managed space, and every block ends strictly
  before the next one starts.
\<close>

definition sound :: "block \<Rightarrow> bool" where
  "sound b = (0 < snd b \<and> addressable b)"

definition tidy :: "block list \<Rightarrow> bool" where
  "tidy bs = (successively before bs \<and> list_all sound bs)"

subsection \<open>Invariants of the search loop\<close>

text \<open>
  The window \<open>[it, it + size)\<close> is not empty and lies inside the array; and it
  brackets the lower bound.
\<close>

definition in_window :: "'a list \<Rightarrow> nat \<times> nat \<Rightarrow> bool" where
  "in_window xs st = (fst st + snd st \<le> length xs \<and> 1 \<le> snd st)"

definition brackets :: "'a::linorder list \<Rightarrow> 'a \<Rightarrow> nat \<times> nat \<Rightarrow> bool" where
  "brackets xs key st =
     (in_window xs st \<and> fst st \<le> lower_bound xs key \<and> lower_bound xs key \<le> fst st + snd st)"

declare mini2_loop.simps [simp del]
declare mini2_indirect_loop.simps [simp del]
declare allocate_loop.simps [simp del]

section \<open>Checked vector operations\<close>

lemmas vec_defs =
  and_then_def vec_read_def vec_write_def vec_erase_def vec_insert_def erase_def insert_at_def

lemma vec_read_outside: "length xs \<le> i \<Longrightarrow> vec_read xs i = Inl OutOfBounds"
  by (simp add: vec_read_def)

lemma vec_read_inside: "vec_read xs i = Inr v \<Longrightarrow> i < length xs \<and> v = xs ! i"
  by (auto simp: vec_read_def split: if_splits)

section \<open>The search routine finds the lower bound\<close>

lemma lower_bound_le: "lower_bound xs key \<le> length xs"
  by (induction xs) auto

lemma lower_bound_nth:
  "sorted xs \<Longrightarrow> j < length xs \<Longrightarrow> (xs ! j < key) = (j < lower_bound xs key)"
proof (induction xs arbitrary: j)
  case Nil
  then show ?case by simp
next
  case (Cons x xs)
  show ?case
  proof (cases "x < key")
    case True
    with Cons show ?thesis
      by (cases j) auto
  next
    case False
    from Cons.prems have "x \<le> (x # xs) ! j"
      by (cases j) auto
    with False show ?thesis
      by auto
  qed
qed

lemma mini2_loop_invariant:
  "(\<And>st. I st \<Longrightarrow> \<exists>st'. binary_search_step2 xs key st = Inr st' \<and> I st') \<Longrightarrow>
   I st \<Longrightarrow> \<exists>st'. mini2_loop xs key st = Inr st' \<and> I st' \<and> snd st' \<le> 2"
proof (induction xs key st rule: mini2_loop.induct)
  case (1 xs key st)
  note step = "1.prems"(1)
  from step [OF "1.prems"(2)] obtain st1 where
    s1: "binary_search_step2 xs key st = Inr st1" and i1: "I st1"
    by blast
  from step [OF i1] obtain st2 where
    s2: "binary_search_step2 xs key st1 = Inr st2" and i2: "I st2"
    by blast
  show ?case
  proof (cases "2 < snd st2")
    case True
    from "1.IH" [OF s1 s2 True step i2] obtain st' where
      "mini2_loop xs key st2 = Inr st' \<and> I st' \<and> snd st' \<le> 2"
      by blast
    with s1 s2 True show ?thesis
      by (subst mini2_loop.simps) simp
  next
    case False
    with s1 s2 i2 show ?thesis
      by (subst mini2_loop.simps) simp
  qed
qed

lemma step_in_window:
  "in_window xs st \<Longrightarrow>
   \<exists>st'. binary_search_step2 xs key st = Inr st' \<and> in_window xs st'"
  by (cases st) (auto simp: in_window_def binary_search_step2_def Let_def)

lemma step_brackets:
  assumes "sorted xs" "brackets xs key st"
  shows "\<exists>st'. binary_search_step2 xs key st = Inr st' \<and> brackets xs key st'"
proof -
  obtain it sz where st: "st = (it, sz)"
    by (cases st)
  from assms st have w: "it + sz \<le> length xs" "1 \<le> sz"
    and b: "it \<le> lower_bound xs key" "lower_bound xs key \<le> it + sz"
    by (auto simp: brackets_def in_window_def)
  let ?m = "it + sz div 2"
  from w have m: "?m < length xs"
    by auto
  have cmp: "(xs ! ?m < key) = (?m < lower_bound xs key)"
    using assms(1) m by (rule lower_bound_nth)
  show ?thesis
  proof (cases "xs ! ?m < key")
    case True
    with cmp have "?m < lower_bound xs key"
      by simp
    with True m w b st show ?thesis
      by (auto simp: binary_search_step2_def Let_def brackets_def in_window_def)
  next
    case False
    with cmp have "lower_bound xs key \<le> ?m"
      by simp
    with False m w b st show ?thesis
      by (auto simp: binary_search_step2_def Let_def brackets_def in_window_def)
  qed
qed

lemma mini2_in_bounds:
  assumes "xs \<noteq> []"
  shows "\<exists>it. mini2 xs (length xs) key = Inr it \<and> it \<le> length xs"
proof -
  from assms have "in_window xs (0, length xs)"
    by (cases xs) (auto simp: in_window_def)
  with mini2_loop_invariant [where I = "in_window xs" and xs = xs and key = key]
  obtain st where l: "mini2_loop xs key (0, length xs) = Inr st"
    and w: "in_window xs st" and s: "snd st \<le> 2"
    using step_in_window by blast
  obtain it sz where st: "st = (it, sz)"
    by (cases st)
  from w s st have "it + sz \<le> length xs" "1 \<le> sz" "sz \<le> 2"
    by (auto simp: in_window_def)
  with l st show ?thesis
    by (auto simp: mini2_def mini2_tail_def)
qed

lemma mini2_lower_bound:
  assumes "sorted xs" "xs \<noteq> []"
  shows "mini2 xs (length xs) key = Inr (lower_bound xs key)"
proof -
  let ?lb = "lower_bound xs key"
  from assms(2) have "brackets xs key (0, length xs)"
    using lower_bound_le [of xs key] by (cases xs) (auto simp: brackets_def in_window_def)
  with mini2_loop_invariant [where I = "brackets xs key" and xs = xs and key = key]
  obtain st where l: "mini2_loop xs key (0, length xs) = Inr st"
    and w: "brackets xs key st" and s: "snd st \<le> 2"
    using step_brackets [OF assms(1)] by blast
  obtain it sz where st: "st = (it, sz)"
    by (cases st)
  from w s st have b: "it + sz \<le> length xs" "1 \<le> sz" "sz \<le> 2" "it \<le> ?lb" "?lb \<le> it + sz"
    by (auto simp: brackets_def in_window_def)
  then have it: "it < length xs"
    by simp
  have c0: "(xs ! it < key) = (it < ?lb)"
    using assms(1) it by (rule lower_bound_nth)
  show ?thesis
  proof (cases "sz = 2")
    case True
    with b have it1: "it + 1 < length xs"
      by simp
    have c1: "(xs ! (it + 1) < key) = (it + 1 < ?lb)"
      using assms(1) it1 by (rule lower_bound_nth)
    from True b it it1 c0 c1 l st show ?thesis
      by (auto simp: mini2_def mini2_tail_def)
  next
    case False
    with b have "sz = 1"
      by simp
    with b it c0 l st show ?thesis
      by (auto simp: mini2_def mini2_tail_def)
  qed
qed

lemma mini2_empty: "mini2 [] 0 key = Inl OutOfBounds"
  by (simp add: mini2_def mini2_loop.simps binary_search_step2_def)


lemma step_indirect_direct:
  "\<forall>i\<in>set ix. i < length data \<Longrightarrow>
   binary_search_step_indirect ix data key st = binary_search_step2 (through ix data) key st"
  by (cases st)
     (auto simp: binary_search_step_indirect_def binary_search_step2_def deref_def Let_def
        through_def)

lemma loop_indirect_direct:
  "\<forall>i\<in>set ix. i < length data \<Longrightarrow>
   mini2_indirect_loop ix data key st = mini2_loop (through ix data) key st"
proof (induction ix data key st rule: mini2_indirect_loop.induct)
  case (1 ix data key st)
  show ?case
    apply (subst mini2_indirect_loop.simps)
    apply (subst mini2_loop.simps)
    using "1.IH" "1.prems"
    apply (auto simp: step_indirect_direct split: sum.splits)
    done
qed

lemma tail_indirect_direct:
  "\<forall>i\<in>set ix. i < length data \<Longrightarrow>
   mini2_indirect_tail ix data key k st = mini2_tail (through ix data) key k st"
  by (cases st) (auto simp: mini2_indirect_tail_def mini2_tail_def deref_def through_def)

lemma mini2_indirect_direct:
  "\<forall>i\<in>set ix. i < length data \<Longrightarrow>
   mini2_indirect ix data sz key = mini2 (through ix data) sz key"
  by (simp add: mini2_indirect_def mini2_def loop_indirect_direct tail_indirect_direct
      split: sum.splits)

lemma mini2_indirect_empty: "mini2_indirect [] data 0 key = Inl OutOfBounds"
  by (simp add: mini2_indirect_def mini2_indirect_loop.simps binary_search_step_indirect_def
      deref_def)

section \<open>The first-fit loop\<close>


lemma erase_update: "erase (xs[k := v]) k = erase xs k"
  by (simp add: erase_def)

lemma allocate_loop_none:
  "\<forall>j. i \<le> j \<and> j < stop \<longrightarrow> j < length (sizes a) \<and> \<not> sz \<le> sizes a ! j \<Longrightarrow>
   allocate_loop sz a i stop = Inr (uint32_max, a)"
proof (induction sz a i stop rule: allocate_loop.induct)
  case (1 sz a i stop)
  show ?case
  proof (cases "i < stop")
    case True
    with "1.prems" have here: "i < length (sizes a)" "\<not> sz \<le> sizes a ! i"
      by auto
    from "1.prems" have "\<forall>j. i + 1 \<le> j \<and> j < stop \<longrightarrow> j < length (sizes a) \<and> \<not> sz \<le> sizes a ! j"
      by auto
    with "1.IH" True here have "allocate_loop sz a (i + 1) stop = Inr (uint32_max, a)"
      by simp
    with True here show ?thesis
      by (subst allocate_loop.simps) simp
  next
    case False
    then show ?thesis
      by (subst allocate_loop.simps) simp
  qed
qed

lemma allocate_loop_first_fit:
  "i \<le> k \<Longrightarrow> k < stop \<Longrightarrow> k < length (sizes a) \<Longrightarrow> k < length (offsets a) \<Longrightarrow>
   sz \<le> sizes a ! k \<Longrightarrow> \<forall>j. i \<le> j \<and> j < k \<longrightarrow> \<not> sz \<le> sizes a ! j \<Longrightarrow>
   allocate_loop sz a i stop = Inr (offsets a ! k, carve a k sz)"
proof (induction sz a i stop rule: allocate_loop.induct)
  case (1 sz a i stop)
  show ?case
  proof (cases "i = k")
    case True
    with "1.prems" show ?thesis
      by (subst allocate_loop.simps) (simp add: carve_def erase_update Let_def)
  next
    case False
    with "1.prems" have lt: "i < k" "i < stop" "i < length (sizes a)" "\<not> sz \<le> sizes a ! i"
      by auto
    from "1.prems" lt have "\<forall>j. i + 1 \<le> j \<and> j < k \<longrightarrow> \<not> sz \<le> sizes a ! j"
      by auto
    with "1.IH" "1.prems" lt have "allocate_loop sz a (i + 1) stop = Inr (offsets a ! k, carve a k sz)"
      by simp
    with lt show ?thesis
      by (subst allocate_loop.simps) simp
  qed
qed

lemma allocate_none:
  "\<forall>x\<in>set (sizes a). x < sz \<Longrightarrow> allocate sz a = Inr (uint32_max, a)"
  unfolding allocate_def
proof (rule allocate_loop_none, intro allI impI)
  fix j
  assume a: "\<forall>x\<in>set (sizes a). x < sz" and "0 \<le> j \<and> j < length (sizes a) mod 2 ^ 32"
  then have "j < length (sizes a)"
    by (meson less_le_trans mod_less_eq_dividend)
  with a show "j < length (sizes a) \<and> \<not> sz \<le> sizes a ! j"
    by (auto simp: not_le)
qed

lemma uint32_max_top: "(v :: size_type) \<le> uint32_max"
proof -
  have "uint32_max = - 1"
    by (simp add: uint32_max_def)
  show ?thesis
    unfolding \<open>uint32_max = - 1\<close> by (rule word_n1_ge)
qed

section \<open>From the two vectors to a list of blocks\<close>

lemma blocks_of_blocks [simp]: "blocks (of_blocks bs) = bs"
  by (simp add: blocks_def of_blocks_def zip_map_fst_snd)

lemma of_blocks_blocks: "parallel a \<Longrightarrow> of_blocks (blocks a) = a"
  by (simp add: blocks_def of_blocks_def parallel_def)

lemma parallel_of_blocks [simp]: "parallel (of_blocks bs)"
  by (simp add: parallel_def of_blocks_def)

lemma offsets_of_blocks [simp]: "offsets (of_blocks bs) = map fst bs"
  by (simp add: of_blocks_def)

lemma sizes_of_blocks [simp]: "sizes (of_blocks bs) = map snd bs"
  by (simp add: of_blocks_def)

lemma of_blocks_eq_iff [simp]: "of_blocks bs = of_blocks cs \<longleftrightarrow> bs = cs"
  by (metis blocks_of_blocks)

subsection \<open>The cascade of deallocate, case by case\<close>

lemma deallocate_at_front:
  "deallocate_at offset sz (of_blocks (b # rest)) 0 =
     Inr (of_blocks (coalesce_at 0 offset sz (b # rest)))"
  by (cases b) (simp add: deallocate_at_def vec_defs coalesce_at_def of_blocks_def insert_at_def)

lemma deallocate_at_back:
  "deallocate_at offset sz (of_blocks (init @ [b])) (Suc (length init)) =
     Inr (of_blocks (coalesce_at (Suc (length init)) offset sz (init @ [b])))"
  by (cases b)
     (simp add: deallocate_at_def vec_defs coalesce_at_def of_blocks_def list_update_append
        nth_append)

lemma deallocate_at_interior:
  assumes "length pre = k"
  shows "deallocate_at offset sz (of_blocks (pre @ x # y # post)) (Suc k) =
     Inr (of_blocks (coalesce_at (Suc k) offset sz (pre @ x # y # post)))"
  using assms
  by (cases x; cases y)
     (simp add: deallocate_at_def vec_defs coalesce_at_def of_blocks_def insert_at_def erase_def
        nth_append list_update_append Let_def)

lemma split_interior:
  assumes "0 < it" "it < length bs"
  shows "\<exists>pre x y post. bs = pre @ x # y # post \<and> length pre = it - 1"
proof -
  from assms obtain k where k: "it = Suc k" "k < length bs" "Suc k < length bs"
    by (cases it) auto
  have "bs = take k bs @ bs ! k # drop (Suc k) bs"
    using k(2) by (rule id_take_nth_drop)
  moreover have "drop (Suc k) bs = bs ! Suc k # drop (Suc (Suc k)) bs"
    using k(3) by (simp add: Cons_nth_drop_Suc)
  moreover have "length (take k bs) = it - 1"
    using k by simp
  ultimately show ?thesis
    by metis
qed

lemma deallocate_at_of_blocks:
  assumes "bs \<noteq> []" "it \<le> length bs"
  shows "deallocate_at offset sz (of_blocks bs) it =
     Inr (of_blocks (coalesce_at it offset sz bs))"
proof -
  consider "it = 0" | "it = length bs" "0 < it" | "0 < it" "it < length bs"
    using assms(2) by linarith
  then show ?thesis
  proof cases
    case 1
    with assms(1) show ?thesis
      by (cases bs) (simp_all add: deallocate_at_front)
  next
    case 2
    from assms(1) obtain init b where "bs = init @ [b]"
      by (cases bs rule: rev_cases) auto
    with 2 show ?thesis
      by (simp add: deallocate_at_back)
  next
    case 3
    then obtain pre x y post where "bs = pre @ x # y # post" "length pre = it - 1"
      using split_interior by blast
    with 3 deallocate_at_interior [of pre "it - 1" offset sz x y post] show ?thesis
      by simp
  qed
qed


lemma deallocate_of_blocks_sorted:
  assumes "bs \<noteq> []" "sorted (map fst bs)"
  shows "deallocate offset sz (of_blocks bs) = Inr (of_blocks (deallocate_spec offset sz bs))"
proof -
  from assms have "mini2 (map fst bs) (length bs) offset = Inr (lower_bound (map fst bs) offset)"
    using mini2_lower_bound [of "map fst bs" offset] by simp
  moreover have "lower_bound (map fst bs) offset \<le> length bs"
    using lower_bound_le [of "map fst bs" offset] by simp
  ultimately show ?thesis
    using assms(1) by (simp add: deallocate_def deallocate_spec_def deallocate_at_of_blocks)
qed

section \<open>The invariants on a list of blocks\<close>

lemma start_le_end: "unat (fst b) \<le> block_end b"
  by (simp add: block_end_def)

lemma transp_before: "transp before"
  unfolding transp_def before_def
  using start_le_end by (meson le_less_trans less_trans)

lemma before_imp_less: "before b c \<Longrightarrow> fst b < fst c"
  unfolding before_def word_less_nat_alt
  using start_le_end [of b] by simp

lemma successively_before_sorted_wrt: "successively before bs = sorted_wrt before bs"
  using transp_before by (rule successively_conv_sorted_wrt)

lemma ascending_of_before:
  assumes "successively before bs"
  shows "successively (\<lambda>x y. x < y) (map fst bs)"
proof -
  from assms have "successively (\<lambda>b c. fst b < fst c) bs"
    by (rule successively_mono) (rule before_imp_less)
  then show ?thesis
    by (simp add: successively_map)
qed

lemma non_overlapping_of_before:
  assumes "successively before bs"
  shows "successively (\<lambda>b c. block_end b \<le> unat (fst c)) bs"
  using assms by (rule successively_mono) (simp add: before_def)

lemma inv_of_blocks:
  "free_list_inv (of_blocks bs) \<longleftrightarrow> successively before bs \<and> list_all (\<lambda>b. 0 < snd b) bs"
  by (auto simp: free_list_inv_def strictly_ascending_def non_overlapping_def non_adjacent_def
      positive_sizes_def ascending_of_before non_overlapping_of_before list_all_iff)

lemma tidy_of_blocks:
  "free_list_inv (of_blocks bs) \<and> in_range (of_blocks bs) \<longleftrightarrow> tidy bs"
  by (auto simp: inv_of_blocks in_range_def tidy_def sound_def list_all_iff)

lemma tidy_blocks:
  "free_list_inv a \<and> in_range a \<longleftrightarrow> parallel a \<and> tidy (blocks a)"
proof (cases "parallel a")
  case True
  then have "of_blocks (blocks a) = a"
    by (rule of_blocks_blocks)
  with tidy_of_blocks [of "blocks a"] True show ?thesis
    by simp
next
  case False
  then show ?thesis
    by (simp add: free_list_inv_def)
qed

lemma sorted_of_strictly_ascending: "strictly_ascending a \<Longrightarrow> sorted (offsets a)"
proof -
  assume "strictly_ascending a"
  then have "sorted_wrt (<) (offsets a)"
    unfolding strictly_ascending_def
    by (simp add: successively_conv_sorted_wrt)
  then show ?thesis
    by (rule strict_sorted_imp_sorted)
qed

lemma inv_sorted: "free_list_inv a \<Longrightarrow> sorted (offsets a)"
  by (simp add: free_list_inv_def sorted_of_strictly_ascending)

subsection \<open>The length of a free list\<close>

lemma spaced_offsets:
  assumes "successively before bs" "list_all (\<lambda>b. 0 < snd b) bs"
  shows "i < length bs \<Longrightarrow> 2 * i \<le> unat (fst (bs ! i))"
proof (induction i)
  case 0
  then show ?case by simp
next
  case (Suc i)
  then have "before (bs ! i) (bs ! Suc i)"
    using assms(1) by (simp add: successively_conv_nth)
  moreover from Suc.prems assms(2) have "0 < snd (bs ! i)"
    by (simp add: list_all_length)
  then have "0 < unat (snd (bs ! i))"
    by (simp add: word_less_nat_alt)
  moreover from Suc have "2 * i \<le> unat (fst (bs ! i))"
    by simp
  ultimately show ?case
    by (simp add: before_def block_end_def)
qed

lemma inv_length: 
  assumes "free_list_inv a"
  shows "length (sizes a) < 2 ^ 32"
proof (cases "sizes a = []")
  case True
  then show ?thesis by simp
next
  case False
  from assms have p: "parallel a"
    by (simp add: free_list_inv_def)
  then have a: "a = of_blocks (blocks a)"
    by (simp add: of_blocks_blocks)
  with assms have inv: "successively before (blocks a)" "list_all (\<lambda>b. 0 < snd b) (blocks a)"
    using inv_of_blocks [of "blocks a"] by simp_all
  have len: "length (blocks a) = length (sizes a)"
    using p by (simp add: blocks_def parallel_def)
  with False have "length (sizes a) - 1 < length (blocks a)"
    by (cases "sizes a") simp_all
  from spaced_offsets [OF inv this]
  have "2 * (length (sizes a) - 1) \<le> unat (fst (blocks a ! (length (sizes a) - 1)))" .
  also have "\<dots> < 2 ^ 32"
    using unsigned_less [of "fst (blocks a ! (length (sizes a) - 1))", where 'a = nat] by simp
  finally show ?thesis
    by simp
qed

section \<open>allocate and the first fit\<close>

lemma first_fit_le: "first_fit zs sz \<le> length zs"
  by (induction zs) auto

lemma first_fit_hit:
  "\<exists>z\<in>set zs. sz \<le> z \<Longrightarrow> first_fit zs sz < length zs \<and> sz \<le> zs ! first_fit zs sz"
  by (induction zs) auto

lemma first_fit_before: "j < first_fit zs sz \<Longrightarrow> \<not> sz \<le> zs ! j"
proof (induction zs arbitrary: j)
  case Nil
  then show ?case by simp
next
  case (Cons z zs)
  then show ?case
    by (cases j) (auto split: if_splits)
qed

lemma allocate_first_fit:
  assumes "parallel a" "length (sizes a) < 2 ^ 32" "\<exists>z\<in>set (sizes a). sz \<le> z"
  shows "allocate sz a =
     Inr (offsets a ! first_fit (sizes a) sz, carve a (first_fit (sizes a) sz) sz)"
proof -
  let ?k = "first_fit (sizes a) sz"
  from assms(3) have k: "?k < length (sizes a)" "sz \<le> sizes a ! ?k"
    using first_fit_hit by blast+
  from assms(2) have stop: "length (sizes a) mod 2 ^ 32 = length (sizes a)"
    by simp
  have "allocate_loop sz a 0 (length (sizes a)) = Inr (offsets a ! ?k, carve a ?k sz)"
  proof (rule allocate_loop_first_fit)
    show "\<forall>j. 0 \<le> j \<and> j < ?k \<longrightarrow> \<not> sz \<le> sizes a ! j"
      using first_fit_before by blast
    show "?k < length (offsets a)"
      using k(1) assms(1) by (simp add: parallel_def)
  qed (use k in simp_all)
  then show ?thesis
    by (simp only: allocate_def stop)
qed

lemma allocate_loop_cases:
  "stop \<le> length (sizes a) \<Longrightarrow> parallel a \<Longrightarrow>
   allocate_loop sz a i stop = Inr (uint32_max, a) \<or>
   (\<exists>k<length (sizes a). sz \<le> sizes a ! k \<and>
      allocate_loop sz a i stop = Inr (offsets a ! k, carve a k sz))"
proof (induction sz a i stop rule: allocate_loop.induct)
  case (1 sz a i stop)
  show ?case
  proof (cases "i < stop")
    case False
    then show ?thesis
      by (subst allocate_loop.simps) simp
  next
    case True
    with "1.prems" have i: "i < length (sizes a)" "i < length (offsets a)"
      by (simp_all add: parallel_def)
    show ?thesis
    proof (cases "sz \<le> sizes a ! i")
      case fit: True
      with True i have "allocate_loop sz a i stop = Inr (offsets a ! i, carve a i sz)"
        by (intro allocate_loop_first_fit) auto
      with fit i show ?thesis
        by blast
    next
      case nofit: False
      with True i have "allocate_loop sz a i stop = allocate_loop sz a (i + 1) stop"
        by (subst allocate_loop.simps) simp
      with "1.IH" True i nofit "1.prems" show ?thesis
        by simp
    qed
  qed
qed

lemma allocate_cases:
  assumes "parallel a"
  shows "allocate sz a = Inr (uint32_max, a) \<or>
   (\<exists>k<length (sizes a). sz \<le> sizes a ! k \<and>
      allocate sz a = Inr (offsets a ! k, carve a k sz))"
  unfolding allocate_def
  using assms by (intro allocate_loop_cases) simp_all

lemma carve_of_blocks:
  "carve (of_blocks (pre @ (p, z) # post)) (length pre) sz =
     of_blocks (if z - sz = 0 then pre @ post else pre @ (p + sz, z - sz) # post)"
  by (simp add: carve_def of_blocks_def erase_def nth_append list_update_append)

lemma split_at:
  assumes "k < length bs"
  shows "\<exists>pre b post. bs = pre @ b # post \<and> length pre = k"
proof -
  have "bs = take k bs @ bs ! k # drop (Suc k) bs"
    using assms by (rule id_take_nth_drop)
  moreover have "length (take k bs) = k"
    using assms by simp
  ultimately show ?thesis
    by metis
qed

section \<open>The case analysis on a split list\<close>

lemma coalesce_front:
  "coalesce_at 0 offset sz ((f, fz) # rest) =
     (if offset + sz = f then (offset, fz + sz) # rest else (offset, sz) # (f, fz) # rest)"
  by (simp add: coalesce_at_def)

lemma coalesce_back:
  "coalesce_at (Suc (length init)) offset sz (init @ [(l, lz)]) =
     (if l + lz = offset then init @ [(l, lz + sz)] else init @ [(l, lz), (offset, sz)])"
  by (simp add: coalesce_at_def)

lemma coalesce_interior:
  "length pre = k \<Longrightarrow>
   coalesce_at (Suc k) offset sz (pre @ (p, pz) # (q, qz) # post) =
     (if p + pz = offset then
        (if p + (pz + sz) = q then pre @ (p, pz + sz + qz) # post
         else pre @ (p, pz + sz) # (q, qz) # post)
      else if q = offset + sz then pre @ (p, pz) # (q - sz, qz + sz) # post
      else pre @ (p, pz) # (offset, sz) # (q, qz) # post)"
  by (simp add: coalesce_at_def nth_append list_update_append)

subsection \<open>Ends of blocks without wrap-around\<close>

lemma unat_uint32_max: "unat uint32_max = 4294967295"
  by (simp add: uint32_max_def)

lemma end_word: "addressable (x, z) \<Longrightarrow> unat (x + z) = unat x + unat z"
  by (simp add: addressable_def block_end_def unat_uint32_max unat_add_lem [symmetric])

lemma touch_iff: "addressable (x, z) \<Longrightarrow> (x + z = y) = (block_end (x, z) = unat y)"
  by (auto simp: end_word block_end_def word_unat_eq_iff)

lemma join_blocks:
  assumes "block_end (x, xz) = unat y" "addressable (y, yz)"
  shows "unat (xz + yz) = unat xz + unat yz"
    and "block_end (x, xz + yz) = block_end (y, yz)"
    and "addressable (x, xz + yz)"
proof -
  from assms have "unat xz + unat yz \<le> 4294967295"
    by (simp add: addressable_def block_end_def unat_uint32_max)
  then show 1: "unat (xz + yz) = unat xz + unat yz"
    by (simp add: unat_add_lem [symmetric])
  with assms(1) show 2: "block_end (x, xz + yz) = block_end (y, yz)"
    by (simp add: block_end_def)
  with assms(2) show "addressable (x, xz + yz)"
    by (simp add: addressable_def)
qed

lemma positive_unat: "(0 < (z :: size_type)) = (0 < unat z)"
  by (simp add: word_less_nat_alt)

section \<open>deallocate keeps the list tidy\<close>

lemma tidy_sorted: "tidy bs \<Longrightarrow> sorted (map fst bs)"
proof -
  assume "tidy bs"
  then have "successively (\<lambda>x y. x < y) (map fst bs)"
    by (simp add: tidy_def ascending_of_before)
  then have "sorted_wrt (<) (map fst bs)"
    by (simp add: successively_conv_sorted_wrt)
  then show ?thesis
    by (rule strict_sorted_imp_sorted)
qed

lemma tidy_append_iff:
  "tidy (pre @ post) \<longleftrightarrow>
     tidy pre \<and> tidy post \<and> (pre = [] \<or> post = [] \<or> before (last pre) (hd post))"
  by (auto simp: tidy_def successively_append_iff)

lemma tidy_same_start:
  assumes "tidy (pre @ b # xs)" "tidy (b' # ys)" "fst b' = fst b"
  shows "tidy (pre @ b' # ys)"
  using assms by (auto simp: tidy_append_iff before_def)

lemma tidy_Cons_iff:
  "tidy (b # xs) \<longleftrightarrow> sound b \<and> tidy xs \<and> (xs = [] \<or> before b (hd xs))"
  by (auto simp: tidy_def successively_Cons)

lemma after_range:
  assumes "sound c" "\<not> fst c < offset" "apart (offset, sz) c"
  shows "block_end (offset, sz) \<le> unat (fst c)"
proof -
  from assms(1) have "unat (fst c) < block_end c"
    by (simp add: sound_def block_end_def positive_unat)
  moreover from assms(2) have "unat offset \<le> unat (fst c)"
    by (simp add: word_less_nat_alt)
  ultimately show ?thesis
    using assms(3) by (auto simp: apart_def)
qed

lemma before_range:
  assumes "fst b < offset" "apart (offset, sz) b"
  shows "block_end b \<le> unat offset"
proof -
  from assms(1) have "unat (fst b) < unat offset"
    by (simp add: word_less_nat_alt)
  then show ?thesis
    using assms(2) by (auto simp: apart_def block_end_def)
qed

text \<open>The freed range joined to the block that starts where it ends.\<close>

lemma join_right:
  assumes "0 < sz" "addressable (offset, sz)" "sound (q, qz)" "offset + sz = q"
  shows "sound (offset, qz + sz)" and "block_end (offset, qz + sz) = block_end (q, qz)"
proof -
  from assms(2,4) have "block_end (offset, sz) = unat q"
    by (simp add: touch_iff)
  moreover from assms(3) have "addressable (q, qz)"
    by (simp add: sound_def)
  ultimately have j: "unat (sz + qz) = unat sz + unat qz"
    "block_end (offset, sz + qz) = block_end (q, qz)" "addressable (offset, sz + qz)"
    by (rule join_blocks)+
  from j(2) show "block_end (offset, qz + sz) = block_end (q, qz)"
    by (simp add: add.commute)
  from j(1,3) assms(1) show "sound (offset, qz + sz)"
    by (simp add: sound_def positive_unat add.commute)
qed

text \<open>The block that ends where the freed range starts, joined to the freed range.\<close>

lemma join_left:
  assumes "0 < sz" "addressable (offset, sz)" "sound (p, pz)" "p + pz = offset"
  shows "sound (p, pz + sz)" and "block_end (p, pz + sz) = block_end (offset, sz)"
proof -
  from assms(3) have "addressable (p, pz)"
    by (simp add: sound_def)
  with assms(4) have "block_end (p, pz) = unat offset"
    by (simp add: touch_iff)
  then have j: "unat (pz + sz) = unat pz + unat sz"
    "block_end (p, pz + sz) = block_end (offset, sz)" "addressable (p, pz + sz)"
    using assms(2) by (rule join_blocks)+
  from j(2) show "block_end (p, pz + sz) = block_end (offset, sz)" .
  from j(1,3) assms(1) show "sound (p, pz + sz)"
    by (simp add: sound_def positive_unat)
qed

lemma tidy_front:
  assumes t: "tidy ((f, fz) # rest)" and pos: "0 < sz" and adr: "addressable (offset, sz)"
    and ge: "\<not> f < offset" and ap: "apart (offset, sz) (f, fz)"
  shows "tidy (coalesce_at 0 offset sz ((f, fz) # rest))"
proof -
  from t have s: "sound (f, fz)"
    by (simp add: tidy_Cons_iff)
  from after_range [OF s _ ap] ge have le: "block_end (offset, sz) \<le> unat f"
    by simp
  show ?thesis
  proof (cases "offset + sz = f")
    case True
    from join_right [OF pos adr s True] t show ?thesis
      by (auto simp: coalesce_front True tidy_Cons_iff before_def)
  next
    case False
    with adr have "block_end (offset, sz) \<noteq> unat f"
      by (simp add: touch_iff)
    with le have "before (offset, sz) (f, fz)"
      by (simp add: before_def)
    with t pos adr False show ?thesis
      by (simp add: coalesce_front tidy_Cons_iff sound_def)
  qed
qed

lemma tidy_tail_back:
  assumes t: "tidy [(l, lz)]" and pos: "0 < sz" and adr: "addressable (offset, sz)"
    and lt: "l < offset" and ap: "apart (offset, sz) (l, lz)"
  shows "tidy (if l + lz = offset then [(l, lz + sz)] else [(l, lz), (offset, sz)])"
proof -
  from t have s: "sound (l, lz)"
    by (simp add: tidy_Cons_iff)
  from before_range [of "(l, lz)" offset sz] lt ap have le: "block_end (l, lz) \<le> unat offset"
    by simp
  show ?thesis
  proof (cases "l + lz = offset")
    case True
    from join_left [OF pos adr s True] show ?thesis
      by (simp add: True tidy_Cons_iff tidy_def)
  next
    case False
    with s have "block_end (l, lz) \<noteq> unat offset"
      by (simp add: touch_iff sound_def)
    with le have "before (l, lz) (offset, sz)"
      by (simp add: before_def)
    with s pos adr False show ?thesis
      by (simp add: tidy_Cons_iff sound_def tidy_def)
  qed
qed

lemma tidy_tail_interior:
  assumes t: "tidy ((p, pz) # (q, qz) # post)" and pos: "0 < sz"
    and adr: "addressable (offset, sz)"
    and lt: "p < offset" and ge: "\<not> q < offset"
    and ap: "apart (offset, sz) (p, pz)" and aq: "apart (offset, sz) (q, qz)"
  shows "tidy
     (if p + pz = offset then
        (if p + (pz + sz) = q then (p, pz + sz + qz) # post
         else (p, pz + sz) # (q, qz) # post)
      else if q = offset + sz then (p, pz) # (q - sz, qz + sz) # post
      else (p, pz) # (offset, sz) # (q, qz) # post)"
proof -
  from t have sp: "sound (p, pz)" and sq: "sound (q, qz)" and tq: "tidy ((q, qz) # post)"
    by (simp_all add: tidy_Cons_iff)
  from before_range [of "(p, pz)" offset sz] lt ap have lp: "block_end (p, pz) \<le> unat offset"
    by simp
  from after_range [OF sq _ aq] ge have lq: "block_end (offset, sz) \<le> unat q"
    by simp
  have right: "before (offset, sz) (q, qz)" if "q \<noteq> offset + sz"
    using that adr lq touch_iff [OF adr, of q] by (auto simp: before_def)
  have left: "before (p, pz) (offset, sz)" if "p + pz \<noteq> offset"
    using that sp lp touch_iff [of p pz offset] by (auto simp: before_def sound_def)
  show ?thesis
  proof (cases "p + pz = offset")
    case True
    note l = join_left [OF pos adr sp True]
    show ?thesis
    proof (cases "p + (pz + sz) = q")
      case both: True
      from l(1) both have "block_end (p, pz + sz) = unat q"
        by (simp add: touch_iff sound_def)
      moreover from sq have "addressable (q, qz)"
        by (simp add: sound_def)
      ultimately have j: "unat (pz + sz + qz) = unat (pz + sz) + unat qz"
        "block_end (p, pz + sz + qz) = block_end (q, qz)" "addressable (p, pz + sz + qz)"
        by (rule join_blocks)+
      from j(1,3) sq have "sound (p, pz + sz + qz)"
        by (simp add: sound_def positive_unat)
      with j(2) tq show ?thesis
        by (auto simp: True both tidy_Cons_iff before_def)
    next
      case left_only: False
      with l(1) have "block_end (p, pz + sz) \<noteq> unat q"
        by (simp add: touch_iff sound_def)
      with l(2) lq have "before (p, pz + sz) (q, qz)"
        by (simp add: before_def)
      with l(1) tq show ?thesis
        by (simp add: True left_only tidy_Cons_iff)
    qed
  next
    case False
    note b = left [OF False]
    show ?thesis
    proof (cases "q = offset + sz")
      case True
      then have e: "offset + sz = q" "q - sz = offset"
        by simp_all
      note r = join_right [OF pos adr sq e(1)]
      from b have "before (p, pz) (offset, qz + sz)"
        by (simp add: before_def)
      with r sp tq show ?thesis
        by (auto simp: False True tidy_Cons_iff before_def)
    next
      case none: False
      from right [OF none] b sp tq pos adr show ?thesis
        by (simp add: False none tidy_Cons_iff sound_def)
    qed
  qed
qed

lemma tidy_replace_tail:
  assumes "tidy (pre @ b # xs)" "tidy ys" "ys \<noteq> []" "fst (hd ys) = fst b"
  shows "tidy (pre @ ys)"
proof -
  from assms(3) obtain b' ys' where "ys = b' # ys'"
    by (cases ys) auto
  with assms tidy_same_start [of pre b xs b' ys'] show ?thesis
    by simp
qed

lemma lower_bound_index:
  assumes "tidy bs" "j < length bs"
  shows "(fst (bs ! j) < offset) = (j < lower_bound (map fst bs) offset)"
  using lower_bound_nth [OF tidy_sorted [OF assms(1)], of j offset] assms(2) by simp

lemma tidy_deallocate:
  assumes t: "tidy bs" and ne: "bs \<noteq> []" and pos: "0 < sz"
    and adr: "addressable (offset, sz)" and ap: "list_all (apart (offset, sz)) bs"
  shows "tidy (deallocate_spec offset sz bs)"
proof -
  let ?idx = "lower_bound (map fst bs) offset"
  have "?idx \<le> length bs"
    using lower_bound_le [of "map fst bs" offset] by simp
  then consider "?idx = 0" | "?idx = length bs" "0 < ?idx" | "0 < ?idx" "?idx < length bs"
    by linarith
  then show ?thesis
  proof cases
    case 1
    from ne obtain f fz rest where bs: "bs = (f, fz) # rest"
      by (cases bs) auto
    with lower_bound_index [OF t, of 0 offset] 1 have "\<not> f < offset"
      by simp
    moreover from ap bs have "apart (offset, sz) (f, fz)"
      by simp
    ultimately have "tidy (coalesce_at 0 offset sz ((f, fz) # rest))"
      using t pos adr unfolding bs by (intro tidy_front)
    with 1 bs show ?thesis
      by (simp add: deallocate_spec_def)
  next
    case 2
    from ne obtain init l lz where bs: "bs = init @ [(l, lz)]"
      by (cases bs rule: rev_cases) auto
    with 2 have idx: "?idx = Suc (length init)"
      by simp
    from lower_bound_index [OF t, of "length init" offset] bs idx have "l < offset"
      by simp
    moreover from ap bs have "apart (offset, sz) (l, lz)"
      by simp
    moreover from t bs have "tidy [(l, lz)]"
      by (simp add: tidy_append_iff)
    ultimately have
      "tidy (if l + lz = offset then [(l, lz + sz)] else [(l, lz), (offset, sz)])"
      using pos adr by (intro tidy_tail_back)
    with t have "tidy (init @ (if l + lz = offset then [(l, lz + sz)] else [(l, lz), (offset, sz)]))"
      unfolding bs by (rule tidy_replace_tail) simp_all
    then show ?thesis
      unfolding deallocate_spec_def idx unfolding bs
      by (cases "l + lz = offset") (simp_all add: coalesce_back)
  next
    case 3
    then obtain pre x y post where bs: "bs = pre @ x # y # post" and len: "length pre = ?idx - 1"
      using split_interior [of ?idx bs] by blast
    obtain p pz q qz where xy: "x = (p, pz)" "y = (q, qz)"
      by (cases x; cases y) auto
    from 3 len have idx: "?idx = Suc (length pre)"
      by simp
    from lower_bound_index [OF t, of "length pre" offset] bs xy idx have "p < offset"
      by simp
    moreover from lower_bound_index [OF t, of "Suc (length pre)" offset] bs xy idx
    have "\<not> q < offset"
      by (simp add: nth_append)
    moreover from ap bs xy have "apart (offset, sz) (p, pz)" "apart (offset, sz) (q, qz)"
      by simp_all
    moreover from t bs xy have "tidy ((p, pz) # (q, qz) # post)"
      by (simp add: tidy_append_iff)
    ultimately have tail: "tidy
     (if p + pz = offset then
        (if p + (pz + sz) = q then (p, pz + sz + qz) # post
         else (p, pz + sz) # (q, qz) # post)
      else if q = offset + sz then (p, pz) # (q - sz, qz + sz) # post
      else (p, pz) # (offset, sz) # (q, qz) # post)" (is "tidy ?tail")
      using pos adr by (intro tidy_tail_interior)
    from t have "tidy (pre @ (p, pz) # (q, qz) # post)"
      by (simp add: bs xy)
    then have "tidy (pre @ ?tail)"
      using tail by (rule tidy_replace_tail) simp_all
    moreover have "coalesce_at (Suc (length pre)) offset sz (pre @ (p, pz) # (q, qz) # post) =
        pre @ ?tail"
      by (simp add: coalesce_interior)
    ultimately show ?thesis
      unfolding deallocate_spec_def idx unfolding bs xy by simp
  qed
qed

subsection \<open>allocate keeps the list tidy\<close>

lemma carve_block:
  assumes "sound (p, z)" "sz \<le> z" "z - sz \<noteq> 0"
  shows "sound (p + sz, z - sz)" and "block_end (p + sz, z - sz) = block_end (p, z)"
    and "unat (p + sz) = unat p + unat sz"
proof -
  from assms(2) have le: "unat sz \<le> unat z" and sub: "unat (z - sz) = unat z - unat sz"
    by (simp_all add: word_le_nat_alt unat_sub)
  from assms(1) le have "unat p + unat sz \<le> 4294967295"
    by (simp add: sound_def addressable_def block_end_def unat_uint32_max)
  then show add: "unat (p + sz) = unat p + unat sz"
    by (simp add: unat_add_lem [symmetric])
  with le sub show e: "block_end (p + sz, z - sz) = block_end (p, z)"
    by (simp add: block_end_def)
  from assms(3) have "0 < z - sz"
    by (simp add: word_gt_0)
  with e assms(1) show "sound (p + sz, z - sz)"
    by (simp add: sound_def addressable_def)
qed

lemma before_trans: "before a b \<Longrightarrow> before b c \<Longrightarrow> before a c"
  using transp_before by (rule transpD)

lemma tidy_remove:
  assumes "tidy (pre @ b # post)"
  shows "tidy (pre @ post)"
  using assms
  by (cases post) (auto simp: tidy_append_iff tidy_Cons_iff intro: before_trans)

lemma tidy_carve:
  assumes t: "tidy (pre @ (p, z) # post)" and le: "sz \<le> z"
  shows "tidy (if z - sz = 0 then pre @ post else pre @ (p + sz, z - sz) # post)"
proof (cases "z - sz = 0")
  case True
  with t show ?thesis
    by (simp add: tidy_remove)
next
  case False
  from t have s: "sound (p, z)"
    by (simp add: tidy_append_iff tidy_Cons_iff)
  note c = carve_block [OF s le False]
  from t c have "tidy (pre @ (p + sz, z - sz) # post)"
    by (auto simp: tidy_append_iff tidy_Cons_iff before_def)
  with False show ?thesis
    by simp
qed

lemma tidy_allocate:
  assumes "tidy bs"
  shows "\<exists>ret bs'. allocate sz (of_blocks bs) = Inr (ret, of_blocks bs') \<and> tidy bs'"
proof -
  from allocate_cases [of "of_blocks bs" sz]
  consider "allocate sz (of_blocks bs) = Inr (uint32_max, of_blocks bs)"
    | k where "k < length bs" "sz \<le> map snd bs ! k"
      "allocate sz (of_blocks bs) = Inr (map fst bs ! k, carve (of_blocks bs) k sz)"
    by auto
  then show ?thesis
  proof cases
    case 1
    with assms show ?thesis
      by blast
  next
    case 2
    from split_at [OF 2(1)] obtain pre b post where bs: "bs = pre @ b # post" "length pre = k"
      by blast
    obtain p z where b: "b = (p, z)"
      by (cases b)
    from 2(2) bs b have le: "sz \<le> z"
      by (simp add: nth_append)
    from carve_of_blocks [of pre p z post sz] bs b
    have "carve (of_blocks bs) k sz =
        of_blocks (if z - sz = 0 then pre @ post else pre @ (p + sz, z - sz) # post)"
      by simp
    moreover from assms le have
      "tidy (if z - sz = 0 then pre @ post else pre @ (p + sz, z - sz) # post)"
      unfolding bs b by (rule tidy_carve)
    ultimately show ?thesis
      using 2(3) by metis
  qed
qed

section \<open>Allocating and giving back\<close>

lemma lower_bound_append:
  "\<forall>x\<in>set xs. x < key \<Longrightarrow> lower_bound (xs @ ys) key = length xs + lower_bound ys key"
  by (induction xs) auto

lemma tidy_sorted_wrt: "tidy bs \<Longrightarrow> sorted_wrt before bs"
  by (simp add: tidy_def successively_before_sorted_wrt)

lemma tidy_earlier_starts:
  assumes "tidy (pre @ (p, z) # post)"
  shows "\<forall>x\<in>set (map fst pre). x < p"
proof -
  from assms have "\<forall>b\<in>set pre. before b (p, z)"
    using tidy_sorted_wrt [OF assms] by (auto simp: sorted_wrt_append)
  then show ?thesis
    using before_imp_less by fastforce
qed

lemma no_touch:
  assumes "sound (u, uz)" "before (u, uz) (p, z)"
  shows "u + uz \<noteq> p"
  using assms by (auto simp: touch_iff sound_def before_def)

lemma lower_bound_at_split:
  assumes "\<forall>x\<in>set (map fst pre). x < key" "ys = [] \<or> \<not> fst (hd ys) < key"
  shows "lower_bound (map fst (pre @ ys)) key = length pre"
proof -
  from assms(2) have "lower_bound (map fst ys) key = 0"
    by (cases ys) auto
  with lower_bound_append [OF assms(1), of "map fst ys"] show ?thesis
    by simp
qed

lemma give_back_shrunk:
  assumes t: "tidy (pre @ (p, z) # post)" and le: "sz \<le> z" and rem: "z - sz \<noteq> 0"
  shows "deallocate_spec p sz (pre @ (p + sz, z - sz) # post) = pre @ (p, z) # post"
proof -
  from t have s: "sound (p, z)"
    by (simp add: tidy_append_iff tidy_Cons_iff)
  from carve_block(3) [OF s le rem] have "\<not> p + sz < p"
    by (simp add: word_less_nat_alt)
  with tidy_earlier_starts [OF t]
  have idx: "lower_bound (map fst (pre @ (p + sz, z - sz) # post)) p = length pre"
    by (intro lower_bound_at_split) simp_all
  show ?thesis
  proof (cases pre rule: rev_cases)
    case Nil
    with idx show ?thesis
      by (simp add: deallocate_spec_def coalesce_front)
  next
    case (snoc pre' b)
    obtain u uz where b: "b = (u, uz)"
      by (cases b)
    from t snoc b have "sound (u, uz)" "before (u, uz) (p, z)"
      by (simp_all add: tidy_append_iff tidy_Cons_iff)
    then have "u + uz \<noteq> p"
      by (rule no_touch)
    moreover from idx snoc b
    have "lower_bound (map fst (pre' @ (u, uz) # (p + sz, z - sz) # post)) p = Suc (length pre')"
      by simp
    ultimately show ?thesis
      using snoc b by (simp add: deallocate_spec_def coalesce_interior)
  qed
qed

lemma give_back_removed:
  assumes t: "tidy (pre @ (p, z) # post)" and ne: "pre @ post \<noteq> []"
  shows "deallocate_spec p z (pre @ post) = pre @ (p, z) # post"
proof -
  from t have s: "sound (p, z)" and tp: "tidy ((p, z) # post)"
    by (simp_all add: tidy_append_iff tidy_Cons_iff)
  have nxt: "post = [] \<or> before (p, z) (hd post)"
    using tp by (simp add: tidy_Cons_iff)
  then have "post = [] \<or> \<not> fst (hd post) < p"
    using before_imp_less [of "(p, z)" "hd post"] by auto
  with tidy_earlier_starts [OF t]
  have idx: "lower_bound (map fst (pre @ post)) p = length pre"
    by (intro lower_bound_at_split) simp_all
  have right: "p + z \<noteq> q" if "post = (q, qz) # rest" for q qz rest
  proof -
    from that nxt have "before (p, z) (q, qz)"
      by simp
    with s show ?thesis
      by (rule no_touch)
  qed
  show ?thesis
  proof (cases pre rule: rev_cases)
    case Nil
    with ne obtain q qz rest where post: "post = (q, qz) # rest"
      by (cases post) auto
    with Nil idx right [OF post] show ?thesis
      by (simp add: deallocate_spec_def coalesce_front)
  next
    case (snoc pre' b)
    obtain u uz where b: "b = (u, uz)"
      by (cases b)
    from t snoc b have "sound (u, uz)" "before (u, uz) (p, z)"
      by (simp_all add: tidy_append_iff tidy_Cons_iff)
    then have left: "u + uz \<noteq> p"
      by (rule no_touch)
    show ?thesis
    proof (cases post)
      case Nil
      with idx snoc b have "lower_bound (map fst (pre' @ [(u, uz)])) p = Suc (length pre')"
        by simp
      with left Nil snoc b show ?thesis
        by (simp add: deallocate_spec_def coalesce_back)
    next
      case (Cons c rest)
      obtain q qz where c: "c = (q, qz)"
        by (cases c)
      from idx snoc b Cons c
      have "lower_bound (map fst (pre' @ (u, uz) # (q, qz) # rest)) p = Suc (length pre')"
        by simp
      moreover from right [of q qz rest] Cons c have "q \<noteq> p + z"
        by auto
      ultimately show ?thesis
        using left snoc b Cons c by (simp add: deallocate_spec_def coalesce_interior)
    qed
  qed
qed

lemma give_back:
  assumes t: "tidy (pre @ (p, z) # post)" and le: "sz \<le> z"
    and ne: "(if z - sz = 0 then pre @ post else pre @ (p + sz, z - sz) # post) \<noteq> []"
  shows "deallocate_spec p sz (if z - sz = 0 then pre @ post else pre @ (p + sz, z - sz) # post) =
     pre @ (p, z) # post"
proof (cases "z - sz = 0")
  case True
  then have "z = sz"
    by simp
  with t ne show ?thesis
    by (simp add: give_back_removed)
next
  case False
  with t le show ?thesis
    by (simp add: give_back_shrunk)
qed

lemma round_trip_blocks:
  assumes t: "tidy bs" and al: "allocate sz (of_blocks bs) = Inr (ret, a')"
    and ok: "ret \<noteq> uint32_max" and ne: "offsets a' \<noteq> []"
  shows "deallocate ret sz a' = Inr (of_blocks bs)"
proof -
  from allocate_cases [of "of_blocks bs" sz] al ok
  obtain k where k: "k < length bs" "sz \<le> map snd bs ! k"
    and r: "ret = map fst bs ! k" "a' = carve (of_blocks bs) k sz"
    by auto
  from split_at [OF k(1)] obtain pre b post where bs: "bs = pre @ b # post" "length pre = k"
    by blast
  obtain p z where b: "b = (p, z)"
    by (cases b)
  let ?bs' = "if z - sz = 0 then pre @ post else pre @ (p + sz, z - sz) # post"
  from k(2) bs b have le: "sz \<le> z"
    by (simp add: nth_append)
  from r(1) bs b have ret: "ret = p"
    by (simp add: nth_append)
  from r(2) carve_of_blocks [of pre p z post sz] bs b have a': "a' = of_blocks ?bs'"
    by simp
  with ne have ne': "?bs' \<noteq> []"
    by (auto split: if_splits)
  from t le have t': "tidy ?bs'"
    unfolding bs b by (rule tidy_carve)
  from t have "deallocate_spec p sz ?bs' = pre @ (p, z) # post"
    unfolding bs b using le ne' by (rule give_back)
  with deallocate_of_blocks_sorted [OF ne' tidy_sorted [OF t'], of p sz]
  show ?thesis
    by (simp add: a' ret bs b)
qed

section \<open>Conservation of the managed space\<close>


lemma live_total_append [simp]: "live_total (xs @ ys) = live_total xs + live_total ys"
  by (simp add: live_total_def)

lemma live_total_Cons [simp]: "live_total (b # bs) = unat (snd b) + live_total bs"
  by (simp add: live_total_def)

lemma live_total_Nil [simp]: "live_total [] = 0"
  by (simp add: live_total_def)
















section \<open>Preservation of the invariants\<close>

text \<open>
  C1, as stated: from a free list with invariants 1 to 4, every \<open>allocate\<close> and every
  \<open>deallocate\<close> of a range that is not marked free, on a non-empty list, leaves a free
  list with invariants 1 to 4. Three calls of that kind break them: an allocation from a
  block that reaches past \<open>2 ^ 32\<close> (the new offset wraps around into an earlier
  block), a deallocation of an empty range (a block of size zero is stored), and a
  deallocation that completes a block of \<open>2 ^ 32\<close> units (its size wraps to zero).
\<close>

theorem invariants_broken_as_stated:
  "free_list_inv \<lparr>offsets = [0, 4294967291], sizes = [5, 10]\<rparr> \<and>
   allocate 7 \<lparr>offsets = [0, 4294967291], sizes = [5, 10]\<rparr> =
     Inr (4294967291, \<lparr>offsets = [0, 2], sizes = [5, 3]\<rparr>) \<and>
   \<not> free_list_inv \<lparr>offsets = [0, 2], sizes = [5, 3]\<rparr> \<and>
   free_list_inv \<lparr>offsets = [30], sizes = [5]\<rparr> \<and>
   list_all (apart (10, 0)) (blocks \<lparr>offsets = [30], sizes = [5]\<rparr>) \<and>
   deallocate 10 0 \<lparr>offsets = [30], sizes = [5]\<rparr> =
     Inr \<lparr>offsets = [10, 30], sizes = [0, 5]\<rparr> \<and>
   \<not> free_list_inv \<lparr>offsets = [10, 30], sizes = [0, 5]\<rparr> \<and>
   free_list_inv \<lparr>offsets = [0], sizes = [2147483648]\<rparr> \<and>
   list_all (apart (2147483648, 2147483648)) (blocks \<lparr>offsets = [0], sizes = [2147483648]\<rparr>) \<and>
   deallocate 2147483648 2147483648 \<lparr>offsets = [0], sizes = [2147483648]\<rparr> =
     Inr \<lparr>offsets = [0], sizes = [0]\<rparr> \<and>
   \<not> free_list_inv \<lparr>offsets = [0], sizes = [0]\<rparr>"
  by (simp add: free_list_inv_def parallel_def strictly_ascending_def non_overlapping_def
      non_adjacent_def positive_sizes_def blocks_def block_end_def before_def apart_def
      allocate_def allocate_loop.simps deallocate_def deallocate_at_def vec_defs mini2_def
      mini2_loop.simps mini2_tail_def binary_search_step2_def insert_at_def erase_def)

text \<open>
  C1, amended: from a free list with invariants 1 to 4 whose blocks all end at or below
  \<open>2 ^ 32 - 1\<close>, every \<open>allocate\<close> returns and leaves such a free list; and so does
  every \<open>deallocate\<close> on a non-empty list, of a range of positive size that ends at or
  below \<open>2 ^ 32 - 1\<close> and meets no free block.
\<close>

theorem invariants_preserved:
  assumes "free_list_inv a" "in_range a"
  shows "(\<exists>ret a'. allocate n a = Inr (ret, a') \<and> free_list_inv a' \<and> in_range a') \<and>
    (offsets a \<noteq> [] \<and> not_marked_free offset sz a \<longrightarrow>
       (\<exists>a'. deallocate offset sz a = Inr a' \<and> free_list_inv a' \<and> in_range a'))"
proof (intro conjI impI)
  from assms have p: "parallel a" and t: "tidy (blocks a)"
    using tidy_blocks [of a] by simp_all
  from p have a: "of_blocks (blocks a) = a"
    by (rule of_blocks_blocks)
  from tidy_allocate [OF t, of n] a
  show "\<exists>ret a'. allocate n a = Inr (ret, a') \<and> free_list_inv a' \<and> in_range a'"
    using tidy_of_blocks by auto
  assume pre: "offsets a \<noteq> [] \<and> not_marked_free offset sz a"
  with a have ne: "blocks a \<noteq> []"
    by (auto simp: of_blocks_def)
  from pre have "tidy (deallocate_spec offset sz (blocks a))"
    by (intro tidy_deallocate t ne) (simp_all add: not_marked_free_def)
  moreover from deallocate_of_blocks_sorted [OF ne tidy_sorted [OF t], of offset sz] a
  have "deallocate offset sz a = Inr (of_blocks (deallocate_spec offset sz (blocks a)))"
    by simp
  ultimately show "\<exists>a'. deallocate offset sz a = Inr a' \<and> free_list_inv a' \<and> in_range a'"
    using tidy_of_blocks by auto
qed

theorem invariants_preserved_witness:
  "allocate 10 \<lparr>offsets = [0, 20], sizes = [10, 10]\<rparr> =
     Inr (0, \<lparr>offsets = [20], sizes = [10]\<rparr>) \<and>
   (\<exists>ret a'. allocate 10 \<lparr>offsets = [0, 20], sizes = [10, 10]\<rparr> = Inr (ret, a') \<and>
      free_list_inv a' \<and> in_range a') \<and>
   deallocate 10 10 \<lparr>offsets = [0, 20], sizes = [10, 10]\<rparr> =
     Inr \<lparr>offsets = [0], sizes = [30]\<rparr> \<and>
   (\<exists>a'. deallocate 10 10 \<lparr>offsets = [0, 20], sizes = [10, 10]\<rparr> = Inr a' \<and>
      free_list_inv a' \<and> in_range a')"
proof -
  let ?a = "\<lparr>offsets = [0, 20], sizes = [10, 10]\<rparr>"
  have "free_list_inv ?a" "in_range ?a" "offsets ?a \<noteq> []" "not_marked_free 10 10 ?a"
    by (simp_all add: free_list_inv_def parallel_def strictly_ascending_def
        non_overlapping_def non_adjacent_def positive_sizes_def blocks_def block_end_def
        before_def in_range_def addressable_def uint32_max_def not_marked_free_def apart_def)
  with invariants_preserved [where a = ?a and n = 10 and offset = 10 and sz = 10]
  have "(\<exists>ret a'. allocate 10 ?a = Inr (ret, a') \<and> free_list_inv a' \<and> in_range a') \<and>
    (\<exists>a'. deallocate 10 10 ?a = Inr a' \<and> free_list_inv a' \<and> in_range a')"
    by simp
  moreover have "allocate 10 ?a = Inr (0, \<lparr>offsets = [20], sizes = [10]\<rparr>)"
    by (simp add: allocate_def allocate_loop.simps erase_def)
  moreover have "deallocate 10 10 ?a = Inr \<lparr>offsets = [0], sizes = [30]\<rparr>"
    by (simp add: deallocate_def deallocate_at_def vec_defs mini2_def mini2_loop.simps mini2_tail_def
        binary_search_step2_def erase_def)
  ultimately show ?thesis
    by simp
qed

section \<open>deallocate against the four cases\<close>

text \<open>
  C2. On a non-empty free list that satisfies the invariants, \<open>deallocate\<close> returns
  without a fault, and the blocks it leaves are those of the case analysis at the lower
  bound of the freed offset: front (merge when the freed end is the first start, else a
  new first entry), past the last entry (grow the last entry when its end is the freed
  start, else append), interior (grow the predecessor and absorb the successor when the
  two then touch, else grow the successor backward, else insert at the position). This
  holds for every freed range. In particular \<open>deallocate(10,10)\<close> on
  \<open>[{0,10},{20,10}]\<close> gives \<open>[{0,30}]\<close>, and \<open>deallocate(20,10)\<close> on
  \<open>[{0,10},{50,10}]\<close> gives \<open>[{0,10},{20,10},{50,10}]\<close>.
\<close>

theorem deallocate_applies_specified_case:
  assumes "free_list_inv a" "offsets a \<noteq> []"
  shows "deallocate offset sz a = Inr (of_blocks (deallocate_spec offset sz (blocks a))) \<and>
    deallocate 10 10 \<lparr>offsets = [0, 20], sizes = [10, 10]\<rparr> =
      Inr \<lparr>offsets = [0], sizes = [30]\<rparr> \<and>
    deallocate 20 10 \<lparr>offsets = [0, 50], sizes = [10, 10]\<rparr> =
      Inr \<lparr>offsets = [0, 20, 50], sizes = [10, 10, 10]\<rparr>"
proof (intro conjI)
  from assms(1) have p: "parallel a" and s: "sorted (offsets a)"
    by (simp_all add: free_list_inv_def inv_sorted)
  from p have a: "of_blocks (blocks a) = a"
    by (rule of_blocks_blocks)
  from a assms(2) have "blocks a \<noteq> []"
    by (auto simp: of_blocks_def)
  moreover from a s have "sorted (map fst (blocks a))"
    by (metis offsets_of_blocks)
  ultimately have "deallocate offset sz (of_blocks (blocks a)) =
      Inr (of_blocks (deallocate_spec offset sz (blocks a)))"
    by (rule deallocate_of_blocks_sorted)
  with a show "deallocate offset sz a = Inr (of_blocks (deallocate_spec offset sz (blocks a)))"
    by simp
next
  show "deallocate 10 10 \<lparr>offsets = [0, 20], sizes = [10, 10]\<rparr> =
      Inr \<lparr>offsets = [0], sizes = [30]\<rparr>"
    by (simp add: deallocate_def deallocate_at_def vec_defs mini2_def mini2_loop.simps mini2_tail_def
        binary_search_step2_def erase_def)
next
  show "deallocate 20 10 \<lparr>offsets = [0, 50], sizes = [10, 10]\<rparr> =
      Inr \<lparr>offsets = [0, 20, 50], sizes = [10, 10, 10]\<rparr>"
    by (simp add: deallocate_def deallocate_at_def vec_defs mini2_def mini2_loop.simps mini2_tail_def
        binary_search_step2_def insert_at_def)
qed

theorem deallocate_applies_specified_case_witness:
  "deallocate 30 5 \<lparr>offsets = [0, 20, 40], sizes = [10, 10, 10]\<rparr> =
     Inr \<lparr>offsets = [0, 20, 40], sizes = [10, 15, 10]\<rparr>"
proof -
  let ?a = "\<lparr>offsets = [0, 20, 40], sizes = [10, 10, 10]\<rparr>"
  have "free_list_inv ?a"
    by (simp add: free_list_inv_def parallel_def strictly_ascending_def non_overlapping_def
        non_adjacent_def positive_sizes_def blocks_def block_end_def before_def)
  moreover have "offsets ?a \<noteq> []"
    by simp
  ultimately show ?thesis
    using deallocate_applies_specified_case [of ?a 30 5]
    by (simp add: blocks_def deallocate_spec_def coalesce_at_def of_blocks_def)
qed

section \<open>First fit\<close>

text \<open>
  C3. On a free list that satisfies the invariants, when some stored size is at least the
  request, \<open>allocate\<close> picks the first such block in list order (every earlier size is
  smaller than the request), returns its offset, and carves the request from its start:
  the offset advances and the size shrinks by the request, and the block is erased exactly
  when nothing remains. With sizes \<open>[50, 10, 100]\<close>, \<open>allocate(20)\<close> returns the offset
  of the block of size 50.
\<close>

theorem allocate_first_fit_carves:
  assumes "free_list_inv a" "\<exists>z\<in>set (sizes a). sz \<le> z"
  shows "first_fit (sizes a) sz < length (sizes a) \<and>
    sz \<le> sizes a ! first_fit (sizes a) sz \<and>
    (\<forall>j<first_fit (sizes a) sz. sizes a ! j < sz) \<and>
    allocate sz a =
      Inr (offsets a ! first_fit (sizes a) sz, carve a (first_fit (sizes a) sz) sz) \<and>
    allocate 20 \<lparr>offsets = [o1, o2, o3], sizes = [50, 10, 100]\<rparr> =
      Inr (o1, \<lparr>offsets = [o1 + 20, o2, o3], sizes = [30, 10, 100]\<rparr>)"
proof (intro conjI)
  from assms(2) show "first_fit (sizes a) sz < length (sizes a)"
    and "sz \<le> sizes a ! first_fit (sizes a) sz"
    using first_fit_hit by blast+
  show "\<forall>j<first_fit (sizes a) sz. sizes a ! j < sz"
    using first_fit_before [of _ "sizes a" sz] by (simp add: not_le)
  from assms(1) have "parallel a"
    by (simp add: free_list_inv_def)
  moreover from assms(1) have "length (sizes a) < 2 ^ 32"
    by (rule inv_length)
  ultimately
  show "allocate sz a =
      Inr (offsets a ! first_fit (sizes a) sz, carve a (first_fit (sizes a) sz) sz)"
    using assms(2) by (rule allocate_first_fit)
  show "allocate 20 \<lparr>offsets = [o1, o2, o3], sizes = [50, 10, 100]\<rparr> =
      Inr (o1, \<lparr>offsets = [o1 + 20, o2, o3], sizes = [30, 10, 100]\<rparr>)"
    by (simp add: allocate_def allocate_loop.simps)
qed

theorem allocate_first_fit_carves_witness:
  "allocate 10 \<lparr>offsets = [0, 100, 200], sizes = [5, 10, 100]\<rparr> =
     Inr (100, \<lparr>offsets = [0, 200], sizes = [5, 100]\<rparr>)"
proof -
  let ?a = "\<lparr>offsets = [0, 100, 200], sizes = [5, 10, 100]\<rparr>"
  have "free_list_inv ?a"
    by (simp add: free_list_inv_def parallel_def strictly_ascending_def non_overlapping_def
        non_adjacent_def positive_sizes_def blocks_def block_end_def before_def)
  moreover have "\<exists>z\<in>set (sizes ?a). 10 \<le> z"
    by simp
  ultimately show ?thesis
    using allocate_first_fit_carves [of ?a 10]
    by (simp add: carve_def erase_def)
qed

section \<open>The search routine against the lower bound\<close>

text \<open>
  C4, as stated: on every sorted sequence, the empty one included, both forms of
  \<open>mini2\<close> return the lower bound, which is the end position for the empty sequence.
  On the empty sequence the first step of the \<open>do\<close> loop reads \<open>*middle\<close> with
  \<open>middle = it\<close>, an element that does not exist.
\<close>

theorem mini2_empty_sequence_fails:
  "\<not> (mini2 ([] :: nat list) (length ([] :: nat list)) 0 = Inr (lower_bound [] 0))"
  by (simp add: mini2_empty)

text \<open>
  C4, amended: on every non-empty sorted sequence the direct form returns the lower bound
  of the key; so does the indirect form on a non-empty index array whose entries are
  valid positions of the data array and which is sorted through the data. On the empty
  sequence both forms read out of bounds.
\<close>

theorem mini2_lower_bound_nonempty:
  "(sorted xs \<and> xs \<noteq> [] \<longrightarrow> mini2 xs (length xs) key = Inr (lower_bound xs key)) \<and>
   ((\<forall>i\<in>set ix. i < length data) \<and> sorted (through ix data) \<and> ix \<noteq> [] \<longrightarrow>
      mini2_indirect ix data (length ix) key = Inr (lower_bound (through ix data) key)) \<and>
   mini2 [] 0 key = Inl OutOfBounds \<and>
   mini2_indirect [] data 0 key = Inl OutOfBounds"
proof (intro conjI impI)
  assume "sorted xs \<and> xs \<noteq> []"
  then show "mini2 xs (length xs) key = Inr (lower_bound xs key)"
    by (simp add: mini2_lower_bound)
next
  assume a: "(\<forall>i\<in>set ix. i < length data) \<and> sorted (through ix data) \<and> ix \<noteq> []"
  then have "through ix data \<noteq> []" and "length (through ix data) = length ix"
    by (simp_all add: through_def)
  with a mini2_lower_bound [of "through ix data" key]
  show "mini2_indirect ix data (length ix) key = Inr (lower_bound (through ix data) key)"
    by (simp add: mini2_indirect_direct)
next
  show "mini2 [] 0 key = Inl OutOfBounds"
    by (rule mini2_empty)
next
  show "mini2_indirect [] data 0 key = Inl OutOfBounds"
    by (rule mini2_indirect_empty)
qed

theorem mini2_lower_bound_nonempty_witness:
  "mini2 [1, 3, 5, 7, 9 :: nat] 5 4 = Inr 2 \<and>
   mini2_indirect [2, 0, 1] [5, 9, 1 :: nat] 3 4 = Inr 1 \<and>
   mini2 [7 :: nat] 1 7 = Inr 0 \<and>
   mini2 [7 :: nat] 1 8 = Inr 1"
  using mini2_lower_bound_nonempty
    [where xs = "[1, 3, 5, 7, 9 :: nat]" and key = 4 and ix = "[2, 0, 1]" and data = "[5, 9, 1]"]
    mini2_lower_bound_nonempty [where xs = "[7 :: nat]" and key = 7 and ix = "[]" and data = "[]"]
    mini2_lower_bound_nonempty [where xs = "[7 :: nat]" and key = 8 and ix = "[]" and data = "[]"]
  by (simp add: through_def eval_nat_numeral)

section \<open>Exhaustion\<close>

text \<open>
  C5. When no stored size reaches the request, \<open>allocate\<close> returns the largest value of
  the size type and the allocator is the one it was given. This holds for every pair of
  vectors, whatever their lengths.
\<close>

theorem allocate_sentinel_on_exhaustion:
  assumes "\<forall>x\<in>set (sizes a). x < sz"
  shows "allocate sz a = Inr (uint32_max, a) \<and> (\<forall>v :: size_type. v \<le> uint32_max)"
  using assms by (simp add: allocate_none uint32_max_top)

theorem allocate_sentinel_on_exhaustion_witness:
  "allocate 20 \<lparr>offsets = [0], sizes = [10]\<rparr> =
     Inr (uint32_max, \<lparr>offsets = [0], sizes = [10]\<rparr>)"
  using allocate_sentinel_on_exhaustion [of "\<lparr>offsets = [0], sizes = [10]\<rparr>" 20]
  by simp

section \<open>Round trip\<close>

text \<open>
  C6, as stated: after an \<open>allocate\<close> that returns an offset other than the sentinel,
  \<open>deallocate\<close> of that offset and size restores the free list. From \<open>[{0,100}]\<close>,
  \<open>allocate(100)\<close> returns 0 and leaves the list empty, and \<open>deallocate(0,100)\<close> then
  fails its assertion. From \<open>[{4294967291,10}]\<close>, a block that reaches past
  \<open>2 ^ 32\<close>, \<open>allocate(7)\<close> returns 4294967291 and leaves \<open>[{2,3}]\<close>, and
  \<open>deallocate(4294967291,7)\<close> appends a second block instead of merging.
\<close>

theorem round_trip_fails_as_stated:
  "free_list_inv \<lparr>offsets = [0], sizes = [100]\<rparr> \<and>
   allocate 100 \<lparr>offsets = [0], sizes = [100]\<rparr> = Inr (0, \<lparr>offsets = [], sizes = []\<rparr>) \<and>
   (0 :: size_type) \<noteq> uint32_max \<and>
   deallocate 0 100 \<lparr>offsets = [], sizes = []\<rparr> = Inl AssertionFailed \<and>
   free_list_inv \<lparr>offsets = [4294967291], sizes = [10]\<rparr> \<and>
   allocate 7 \<lparr>offsets = [4294967291], sizes = [10]\<rparr> =
     Inr (4294967291, \<lparr>offsets = [2], sizes = [3]\<rparr>) \<and>
   (4294967291 :: size_type) \<noteq> uint32_max \<and>
   deallocate 4294967291 7 \<lparr>offsets = [2], sizes = [3]\<rparr> =
     Inr \<lparr>offsets = [2, 4294967291], sizes = [3, 7]\<rparr>"
  by (simp add: free_list_inv_def parallel_def strictly_ascending_def non_overlapping_def
      non_adjacent_def positive_sizes_def blocks_def uint32_max_def
      allocate_def allocate_loop.simps deallocate_def deallocate_at_def vec_defs mini2_def
      mini2_loop.simps mini2_tail_def binary_search_step2_def insert_at_def erase_def)

text \<open>
  C6, amended: on a free list with invariants 1 to 4 whose blocks all end at or below
  \<open>2 ^ 32 - 1\<close>, when \<open>allocate\<close> returns an offset other than the sentinel and the
  free list it leaves is not empty, \<open>deallocate\<close> of the returned offset with the same
  size returns exactly the free list from before the allocation.
\<close>

theorem round_trip:
  assumes "free_list_inv a" "in_range a"
    and "allocate sz a = Inr (ret, a')" "ret \<noteq> uint32_max" "offsets a' \<noteq> []"
  shows "deallocate ret sz a' = Inr a"
proof -
  from assms(1,2) have p: "parallel a" and t: "tidy (blocks a)"
    using tidy_blocks [of a] by simp_all
  from p have a: "of_blocks (blocks a) = a"
    by (rule of_blocks_blocks)
  with assms(3) have "allocate sz (of_blocks (blocks a)) = Inr (ret, a')"
    by simp
  with t have "deallocate ret sz a' = Inr (of_blocks (blocks a))"
    using assms(4,5) by (rule round_trip_blocks)
  with a show ?thesis
    by simp
qed

theorem round_trip_witness:
  "allocate 10 \<lparr>offsets = [0, 20, 40], sizes = [5, 10, 30]\<rparr> =
     Inr (20, \<lparr>offsets = [0, 40], sizes = [5, 30]\<rparr>) \<and>
   deallocate 20 10 \<lparr>offsets = [0, 40], sizes = [5, 30]\<rparr> =
     Inr \<lparr>offsets = [0, 20, 40], sizes = [5, 10, 30]\<rparr>"
proof -
  let ?a = "\<lparr>offsets = [0, 20, 40], sizes = [5, 10, 30]\<rparr>"
  let ?a' = "\<lparr>offsets = [0, 40], sizes = [5, 30]\<rparr>"
  have al: "allocate 10 ?a = Inr (20, ?a')"
    by (simp add: allocate_def allocate_loop.simps erase_def)
  have "free_list_inv ?a" "in_range ?a" "(20 :: size_type) \<noteq> uint32_max" "offsets ?a' \<noteq> []"
    by (simp_all add: free_list_inv_def parallel_def strictly_ascending_def
        non_overlapping_def non_adjacent_def positive_sizes_def blocks_def block_end_def
        before_def in_range_def addressable_def uint32_max_def)
  with al round_trip [of ?a 10 20 ?a'] show ?thesis
    by simp
qed

section \<open>The end-to-end scenario\<close>

text \<open>
  C7, as stated: from \<open>[{0,100}]\<close> the calls \<open>allocate(30)\<close>, \<open>allocate(70)\<close>,
  \<open>allocate(1)\<close>, \<open>deallocate(0,30)\<close>, \<open>deallocate(30,70)\<close> pass through the lists
  \<open>[{30,70}]\<close>, \<open>[]\<close>, \<open>[]\<close>, \<open>[{0,30}]\<close>, \<open>[{0,100}]\<close>. The fourth call
  meets an empty free list, where \<open>deallocate\<close> stops at its assertion.
\<close>

theorem scenario_as_stated_fails:
  "\<not> (allocate 30 \<lparr>offsets = [0], sizes = [100]\<rparr> = Inr (0, \<lparr>offsets = [30], sizes = [70]\<rparr>) \<and>
      allocate 70 \<lparr>offsets = [30], sizes = [70]\<rparr> = Inr (30, \<lparr>offsets = [], sizes = []\<rparr>) \<and>
      allocate 1 \<lparr>offsets = [], sizes = []\<rparr> = Inr (uint32_max, \<lparr>offsets = [], sizes = []\<rparr>) \<and>
      deallocate 0 30 \<lparr>offsets = [], sizes = []\<rparr> = Inr \<lparr>offsets = [0], sizes = [30]\<rparr> \<and>
      deallocate 30 70 \<lparr>offsets = [0], sizes = [30]\<rparr> = Inr \<lparr>offsets = [0], sizes = [100]\<rparr>)"
  by (simp add: deallocate_def)

text \<open>
  C7, amended: the three allocations return 0, 30 and the sentinel and leave
  \<open>[{30,70}]\<close>, \<open>[]\<close>, \<open>[]\<close>; \<open>deallocate(0,30)\<close> on the empty list fails its
  assertion; \<open>deallocate(30,70)\<close> on \<open>[{0,30}]\<close> merges into \<open>[{0,100}]\<close>.
\<close>

theorem scenario_amended:
  "allocate 30 \<lparr>offsets = [0], sizes = [100]\<rparr> = Inr (0, \<lparr>offsets = [30], sizes = [70]\<rparr>) \<and>
   allocate 70 \<lparr>offsets = [30], sizes = [70]\<rparr> = Inr (30, \<lparr>offsets = [], sizes = []\<rparr>) \<and>
   allocate 1 \<lparr>offsets = [], sizes = []\<rparr> = Inr (uint32_max, \<lparr>offsets = [], sizes = []\<rparr>) \<and>
   deallocate 0 30 \<lparr>offsets = [], sizes = []\<rparr> = Inl AssertionFailed \<and>
   deallocate 30 70 \<lparr>offsets = [0], sizes = [30]\<rparr> = Inr \<lparr>offsets = [0], sizes = [100]\<rparr>"
  by (simp add: allocate_def allocate_loop.simps erase_def deallocate_def deallocate_at_def vec_defs
      mini2_def mini2_loop.simps mini2_tail_def binary_search_step2_def)

section \<open>Conservation\<close>




section \<open>deallocate stays inside its vectors\<close>

text \<open>
  Where the cascade returns an allocator, the elements it touched exist: the first
  element at the front, the last elements past the end, the elements at \<open>idx - 1\<close> and
  \<open>idx\<close> in the interior. On vectors of different lengths it can fault.
\<close>

lemma deallocate_at_accesses:
  assumes "deallocate_at offset sz a it = Inr a'"
  shows "(it = 0 \<longrightarrow> 0 < length (offsets a)) \<and>
    (it \<noteq> 0 \<and> it = length (offsets a) \<longrightarrow> 0 < length (sizes a)) \<and>
    (it \<noteq> 0 \<and> it \<noteq> length (offsets a) \<longrightarrow>
       it - 1 < length (offsets a) \<and> it - 1 < length (sizes a) \<and> it < length (offsets a))"
proof (intro conjI impI)
  assume "it = 0"
  with assms show "0 < length (offsets a)"
    by (auto simp: deallocate_at_def and_then_def vec_read_def split: if_splits)
next
  assume "it \<noteq> 0 \<and> it = length (offsets a)"
  with assms show "0 < length (sizes a)"
    by (auto simp: deallocate_at_def and_then_def vec_read_def split: if_splits sum.splits)
next
  assume i: "it \<noteq> 0 \<and> it \<noteq> length (offsets a)"
  with assms obtain p where p: "vec_read (offsets a) (it - 1) = Inr p"
    by (auto simp: deallocate_at_def and_then_def Let_def split: sum.splits)
  with assms i obtain pz where pz: "vec_read (sizes a) (it - 1) = Inr pz"
    by (auto simp: deallocate_at_def and_then_def Let_def split: sum.splits)
  from p show "it - 1 < length (offsets a)"
    by (simp add: vec_read_inside)
  from pz show "it - 1 < length (sizes a)"
    by (simp add: vec_read_inside)
  from assms i p pz have "\<exists>q. vec_read (offsets a) it = Inr q"
    by (auto simp: deallocate_at_def and_then_def Let_def vec_write_def
        split: sum.splits if_splits)
  then show "it < length (offsets a)"
    by (auto simp: vec_read_inside)
qed

lemma deallocate_faults_on_short_sizes:
  "deallocate 30 5 \<lparr>offsets = [0, 20, 40], sizes = [10]\<rparr> = Inl OutOfBounds"
  by (simp add: deallocate_def deallocate_at_def vec_defs mini2_def mini2_loop.simps
      mini2_tail_def binary_search_step2_def)

text \<open>
  C9. On a non-empty free list held in two vectors of one length (as the invariants
  require), the search of \<open>deallocate\<close> reads only existing elements of \<open>offsets_\<close>
  and returns a position \<open>it\<close> between the first entry and the end. The cascade at that
  position returns an allocator, so that each of its checked accesses is inside its
  vector; the elements it can touch exist: elements \<open>0\<close> at the front, the last elements
  past the end, elements \<open>it - 1\<close> and \<open>it\<close> of both vectors in the interior. So
  \<open>deallocate\<close> returns an allocator: the assertion does not fail and nothing outside
  the vectors is touched.
\<close>

theorem deallocate_in_bounds:
  assumes "offsets a \<noteq> []" "parallel a"
  shows "\<exists>it a'. mini2 (offsets a) (length (offsets a)) offset = Inr it \<and>
    it \<le> length (offsets a) \<and>
    deallocate_at offset sz a it = Inr a' \<and>
    deallocate offset sz a = Inr a' \<and>
    (it = 0 \<longrightarrow> 0 < length (offsets a) \<and> 0 < length (sizes a)) \<and>
    (it = length (offsets a) \<longrightarrow>
       length (offsets a) - 1 < length (offsets a) \<and> length (sizes a) - 1 < length (sizes a)) \<and>
    (0 < it \<and> it < length (offsets a) \<longrightarrow>
       it - 1 < length (offsets a) \<and> it < length (offsets a) \<and>
       it - 1 < length (sizes a) \<and> it < length (sizes a))"
proof -
  from assms(1) obtain it where m: "mini2 (offsets a) (length (offsets a)) offset = Inr it"
    and le: "it \<le> length (offsets a)"
    using mini2_in_bounds by blast
  from assms(2) have a: "of_blocks (blocks a) = a"
    by (rule of_blocks_blocks)
  with assms(1) have ne: "blocks a \<noteq> []"
    by (auto simp: of_blocks_def)
  from assms(2) have len: "length (blocks a) = length (offsets a)"
    by (simp add: blocks_def parallel_def)
  with le have "it \<le> length (blocks a)"
    by simp
  from deallocate_at_of_blocks [OF ne this, of offset sz] a
  have at: "deallocate_at offset sz a it = Inr (of_blocks (coalesce_at it offset sz (blocks a)))"
    by simp
  with m assms(1) have "deallocate offset sz a =
      Inr (of_blocks (coalesce_at it offset sz (blocks a)))"
    by (simp add: deallocate_def)
  moreover from assms have "0 < length (offsets a)" "0 < length (sizes a)"
    by (auto simp: parallel_def)
  ultimately show ?thesis
    using m le at assms(2) by (auto simp: parallel_def)
qed

theorem deallocate_in_bounds_witness:
  "mini2 [0, 20 :: size_type] 2 10 = Inr 1 \<and>
   deallocate_at 10 10 \<lparr>offsets = [0, 20], sizes = [10, 10]\<rparr> 1 =
     Inr \<lparr>offsets = [0], sizes = [30]\<rparr> \<and>
   deallocate 10 10 \<lparr>offsets = [0, 20], sizes = [10, 10]\<rparr> =
     Inr \<lparr>offsets = [0], sizes = [30]\<rparr>"
proof -
  have m: "mini2 [0, 20 :: size_type] 2 10 = Inr 1"
    by (simp add: mini2_def mini2_loop.simps mini2_tail_def binary_search_step2_def)
  from deallocate_in_bounds [of "\<lparr>offsets = [0, 20], sizes = [10, 10]\<rparr>" 10 10]
  obtain it a' where "mini2 [0, 20 :: size_type] 2 10 = Inr it"
    and "deallocate_at 10 10 \<lparr>offsets = [0, 20], sizes = [10, 10]\<rparr> it = Inr a'"
    and "deallocate 10 10 \<lparr>offsets = [0, 20], sizes = [10, 10]\<rparr> = Inr a'"
    by (auto simp: parallel_def eval_nat_numeral)
  moreover have "deallocate_at 10 10 \<lparr>offsets = [0, 20], sizes = [10, 10]\<rparr> 1 =
      Inr \<lparr>offsets = [0], sizes = [30]\<rparr>"
    by (simp add: deallocate_at_def vec_defs)
  ultimately show ?thesis
    using m by simp
qed

section \<open>A request of size zero\<close>

text \<open>
  C10, as stated: in every free list state, \<open>allocate(0)\<close> on a non-empty list returns
  the offset of the first block and leaves the list unchanged. From the seed
  \<open>[{30,5}]\<close> the valid calls \<open>allocate(0)\<close>, \<open>allocate(2)\<close>, \<open>deallocate(30,0)\<close>
  (the first allocation given back) lead to the list \<open>[{30,0},{32,3}]\<close>. There
  \<open>allocate(0)\<close> returns 30 and erases the first entry.
\<close>

theorem allocate_zero_changes_list:
  "free_list_inv \<lparr>offsets = [30], sizes = [5]\<rparr> \<and>
   valid_calls [Allocate 0, Allocate 2, Deallocate 30 0] (\<lparr>offsets = [30], sizes = [5]\<rparr>, []) \<and>
   run [Allocate 0, Allocate 2, Deallocate 30 0] (\<lparr>offsets = [30], sizes = [5]\<rparr>, []) =
     Inr (\<lparr>offsets = [30, 32], sizes = [0, 3]\<rparr>, [(30, 2)]) \<and>
   allocate 0 \<lparr>offsets = [30, 32], sizes = [0, 3]\<rparr> =
     Inr (30, \<lparr>offsets = [32], sizes = [3]\<rparr>) \<and>
   \<lparr>offsets = [32], sizes = [3]\<rparr> \<noteq> \<lparr>offsets = [30, 32 :: size_type], sizes = [0, 3 :: size_type]\<rparr>"
  by (simp add: free_list_inv_def parallel_def strictly_ascending_def non_overlapping_def
      non_adjacent_def positive_sizes_def blocks_def
      allocate_def allocate_loop.simps uint32_max_def deallocate_def deallocate_at_def
      vec_defs mini2_def mini2_loop.simps mini2_tail_def binary_search_step2_def)

text \<open>
  C10, amended: in every free list state held in two vectors of one length with fewer
  than \<open>2 ^ 32\<close> entries, \<open>allocate(0)\<close> returns the sentinel and changes nothing when
  the list is empty, and returns the offset of the first block when it is not; then the
  list is unchanged when the first stored size is not zero (so in every state with
  invariant 4), and the first entry is erased when its stored size is zero.
\<close>

theorem allocate_zero:
  assumes "parallel a" "length (sizes a) < 2 ^ 32"
  shows "allocate 0 a =
    (if offsets a = [] then Inr (uint32_max, a)
     else if hd (sizes a) = 0
       then Inr (hd (offsets a), \<lparr>offsets = tl (offsets a), sizes = tl (sizes a)\<rparr>)
     else Inr (hd (offsets a), a))"
proof (cases "offsets a = []")
  case True
  with assms(1) have "sizes a = []"
    by (simp add: parallel_def)
  then have "allocate 0 a = Inr (uint32_max, a)"
    by (intro allocate_none) simp
  with True show ?thesis
    by simp
next
  case False
  with assms(1) obtain x xs z zs where a: "offsets a = x # xs" "sizes a = z # zs"
    by (cases "offsets a"; cases "sizes a") (auto simp: parallel_def)
  then have "\<exists>z\<in>set (sizes a). 0 \<le> z"
    by auto
  with assms have "allocate 0 a =
      Inr (offsets a ! first_fit (sizes a) 0, carve a (first_fit (sizes a) 0) 0)"
    by (rule allocate_first_fit)
  moreover have "first_fit (sizes a) 0 = 0"
    using a by simp
  moreover have "carve a 0 0 =
      (if z = 0 then \<lparr>offsets = tl (offsets a), sizes = tl (sizes a)\<rparr> else a)"
    using a by (simp add: carve_def erase_def)
  ultimately show ?thesis
    using a by simp
qed

theorem allocate_zero_witness:
  "allocate 0 \<lparr>offsets = [5, 20], sizes = [3, 4]\<rparr> =
     Inr (5, \<lparr>offsets = [5, 20], sizes = [3, 4]\<rparr>) \<and>
   allocate 0 \<lparr>offsets = [], sizes = []\<rparr> = Inr (uint32_max, \<lparr>offsets = [], sizes = []\<rparr>) \<and>
   allocate 0 \<lparr>offsets = [30, 32], sizes = [0, 3]\<rparr> =
     Inr (30, \<lparr>offsets = [32], sizes = [3]\<rparr>)"
  using allocate_zero [of "\<lparr>offsets = [5, 20], sizes = [3, 4]\<rparr>"]
    allocate_zero [of "\<lparr>offsets = [], sizes = []\<rparr>"]
    allocate_zero [of "\<lparr>offsets = [30, 32], sizes = [0, 3]\<rparr>"]
  by (simp add: parallel_def)

end
